theory Spec2Isabelle
  imports Main "HOL-Library.Monad_Syntax"
begin

section \<open>Timestamp grammar\<close>

text \<open>
  \<^verbatim>\<open>parseTimestampLinks\<close> of \<^verbatim>\<open>frontend/src/components/ChatInterface.tsx\<close>:
  the global regular expression
  \<^verbatim>\<open>/\[(\d{1,2}):(\d{2})(?::(\d{2}))?\]/g\<close> is applied with \<^verbatim>\<open>regex.exec\<close> in a loop.
  A JavaScript string is modelled as a \<^typ>\<open>string\<close>; the expression only inspects the
  brackets, the colon and the ASCII digits, so the character type plays no role.
\<close>

definition is_digit :: "char \<Rightarrow> bool" where
  "is_digit c = (c \<in> set ''0123456789'')"

definition digit_value :: "char \<Rightarrow> nat" where
  "digit_value c = of_char c - 48"

text \<open>
  \<^verbatim>\<open>parseInt\<close> reads the leading decimal digits of its argument. It is only ever applied to
  a capture group, which consists of one or two digits; on a string with no leading digit
  JavaScript yields \<^verbatim>\<open>NaN\<close>, a case the parser never reaches (the model yields 0 there).
\<close>

definition parseInt :: "string \<Rightarrow> nat" where
  "parseInt s = foldl (\<lambda>n c. 10 * n + digit_value c) 0 (takeWhile is_digit s)"

text \<open>The pieces of the pattern: a literal character, and \<^verbatim>\<open>\d{n}\<close>.\<close>

definition rx_char :: "char \<Rightarrow> string \<Rightarrow> string option" where
  "rx_char c s = (case s of [] \<Rightarrow> None | x # xs \<Rightarrow> if x = c then Some xs else None)"

definition rx_digits :: "nat \<Rightarrow> string \<Rightarrow> (string \<times> string) option" where
  "rx_digits n s =
     (if n \<le> length s \<and> list_all is_digit (take n s) then Some (take n s, drop n s) else None)"

text \<open>
  \<^verbatim>\<open>:(\d{2})(?::(\d{2}))?\]\<close>, the pattern after the first group. The optional group is
  greedy: the matcher first tries it together with the closing bracket, and only when that
  fails does it try the closing bracket alone. The result is the second group, the third
  group (\<open>None\<close> is JavaScript's \<^verbatim>\<open>undefined\<close>) and the input left after the match.
\<close>

definition rx_or :: "'a option \<Rightarrow> 'a option \<Rightarrow> 'a option" where
  "rx_or first second = (case first of Some r \<Rightarrow> Some r | None \<Rightarrow> second)"

definition rx_after_hour :: "string \<Rightarrow> (string \<times> string option \<times> string) option" where
  "rx_after_hour s =
     do {
       s1 \<leftarrow> rx_char CHR '':'' s;
       (g2, s2) \<leftarrow> rx_digits 2 s1;
       rx_or
         (do {
            s3 \<leftarrow> rx_char CHR '':'' s2;
            (g3, s4) \<leftarrow> rx_digits 2 s3;
            s5 \<leftarrow> rx_char CHR '']'' s4;
            Some (g2, Some g3, s5)
          })
         (do {
            s5 \<leftarrow> rx_char CHR '']'' s2;
            Some (g2, None, s5)
          })
     }"

text \<open>
  The result of a successful \<^verbatim>\<open>exec\<close>: \<open>m0\<close> is \<^verbatim>\<open>match[0]\<close>, the matched text, and
  \<open>m1\<close>, \<open>m2\<close>, \<open>m3\<close> are the capture groups.
\<close>

record regmatch =
  m0 :: string
  m1 :: string
  m2 :: string
  m3 :: "string option"

definition rx_hour :: "nat \<Rightarrow> string \<Rightarrow> (string \<times> string \<times> string option \<times> string) option" where
  "rx_hour n s =
     do {
       (g1, s1) \<leftarrow> rx_digits n s;
       (g2, g3, rest) \<leftarrow> rx_after_hour s1;
       Some (g1, g2, g3, rest)
     }"

text \<open>
  The whole pattern, tried at the start of \<open>s\<close>. \<^verbatim>\<open>\d{1,2}\<close> is greedy: two digits are tried
  first, one digit on backtracking. \<^verbatim>\<open>match[0]\<close> is the part of \<open>s\<close> that the match consumed.
\<close>

definition rx_match_here :: "string \<Rightarrow> regmatch option" where
  "rx_match_here s =
     do {
       s0 \<leftarrow> rx_char CHR ''['' s;
       (g1, g2, g3, rest) \<leftarrow> rx_or (rx_hour 2 s0) (rx_hour 1 s0);
       Some \<lparr>m0 = take (length s - length rest) s, m1 = g1, m2 = g2, m3 = g3\<rparr>
     }"

text \<open>
  \<^verbatim>\<open>regex.exec(text)\<close> with the \<^verbatim>\<open>g\<close> flag: the search starts at \<^verbatim>\<open>lastIndex\<close> and moves
  right until the pattern matches; the new \<^verbatim>\<open>lastIndex\<close> is the end of the match. With no
  match the result is \<^verbatim>\<open>null\<close>.
\<close>

function regex_exec :: "string \<Rightarrow> nat \<Rightarrow> (regmatch \<times> nat) option" where
  "regex_exec text lastIndex =
     (if length text < lastIndex then None
      else case rx_match_here (drop lastIndex text) of
             Some m \<Rightarrow> Some (m, lastIndex + length (m0 m))
           | None \<Rightarrow> regex_exec text (Suc lastIndex))"
  by pat_completeness auto
termination
  by (relation "measure (\<lambda>(text, lastIndex). Suc (length text) - lastIndex)") auto

definition link_seconds :: "regmatch \<Rightarrow> nat" where
  "link_seconds m =
     (case m3 m of
        Some g3 \<Rightarrow> parseInt (m1 m) * 3600 + parseInt (m2 m) * 60 + parseInt g3
      | None \<Rightarrow> parseInt (m1 m) * 60 + parseInt (m2 m))"

lemma rx_char_length: "rx_char c s = Some r \<Longrightarrow> length s = Suc (length r)"
  by (auto simp: rx_char_def split: list.splits if_splits)

lemma rx_digits_length: "rx_digits n s = Some (g, r) \<Longrightarrow> length s = n + length r \<and> length g = n"
  by (auto simp: rx_digits_def split: if_splits)

lemma rx_after_hour_length:
  assumes "rx_after_hour s = Some (g2, g3, r)"
  shows "length r + 4 \<le> length s"
  using assms unfolding rx_after_hour_def rx_or_def
  by (auto split: option.splits prod.splits Option.bind_splits
           dest!: rx_char_length rx_digits_length)

lemma rx_hour_length:
  assumes "rx_hour n s = Some (g1, g2, g3, r)"
  shows "length r + 4 + n \<le> length s"
  using assms unfolding rx_hour_def
  by (auto split: option.splits prod.splits Option.bind_splits
           dest!: rx_after_hour_length rx_digits_length)

lemma rx_match_here_length:
  assumes "rx_match_here s = Some m"
  shows "6 \<le> length (m0 m) \<and> length (m0 m) \<le> length s"
  using assms unfolding rx_match_here_def rx_or_def
  by (auto split: option.splits prod.splits Option.bind_splits
           dest!: rx_char_length rx_hour_length)

declare regex_exec.simps [simp del]

lemma regex_exec_bounds:
  "regex_exec t i = Some (m, j) \<Longrightarrow> i < j \<and> j \<le> length t"
proof (induction t i rule: regex_exec.induct)
  case (1 t i)
  show ?case
  proof (cases "rx_match_here (drop i t)")
    case None
    with "1.prems" "1.IH" show ?thesis
      by (subst (asm) regex_exec.simps) (auto split: if_splits)
  next
    case (Some m')
    with "1.prems" rx_match_here_length [OF Some] show ?thesis
      by (subst (asm) regex_exec.simps) (auto split: if_splits)
  qed
qed

text \<open>
  The loop of \<^verbatim>\<open>parseTimestampLinks\<close>: \<^verbatim>\<open>while ((match = regex.exec(text)) !== null)\<close>, with
  the regular expression's \<^verbatim>\<open>lastIndex\<close> and the array \<^verbatim>\<open>links\<close> as the loop state.
  \<^verbatim>\<open>match[3]\<close> is a two-digit string when the group took part in the match, hence truthy.
\<close>

function parse_loop :: "string \<Rightarrow> nat \<Rightarrow> (string \<times> nat) list \<Rightarrow> (string \<times> nat) list" where
  "parse_loop text lastIndex links =
     (case regex_exec text lastIndex of
        None \<Rightarrow> links
      | Some (m, lastIndex') \<Rightarrow> parse_loop text lastIndex' (links @ [(m0 m, link_seconds m)]))"
  by pat_completeness auto
termination
  by (relation "measure (\<lambda>(text, lastIndex, links). Suc (length text) - lastIndex)")
     (auto dest: regex_exec_bounds)

declare parse_loop.simps [simp del]

definition parseTimestampLinks :: "string \<Rightarrow> (string \<times> nat) list" where
  "parseTimestampLinks text = parse_loop text 0 []"


subsection \<open>The grammar in the specification's words\<close>

text \<open>
  The specification describes a marker as \<^verbatim>\<open>[H:MM]\<close>, \<^verbatim>\<open>[H:MM:SS]\<close> or
  \<^verbatim>\<open>[HH:MM:SS]\<close>: colon-delimited groups between brackets, the first of one or two digits,
  the others of exactly two. \<open>spec_fit nh with_seconds s\<close> reads, at the start of \<open>s\<close>, a marker
  whose first group has \<open>nh\<close> digits and that has (or has not) a seconds group; its value is
  \<open>H * 3600 + M * 60 + S\<close> with three groups and \<open>M * 60 + S\<close> with two. These definitions
  follow the specification, not the code; they are what the parser is compared with.
\<close>

definition decimal :: "string \<Rightarrow> nat" where
  "decimal ds = fold (\<lambda>c n. 10 * n + digit_value c) ds 0"

definition spec_fit :: "nat \<Rightarrow> bool \<Rightarrow> string \<Rightarrow> (string \<times> nat) option" where
  "spec_fit nh with_seconds s =
     (let h = take nh (drop 1 s);
          m = take 2 (drop (nh + 2) s);
          sec = take 2 (drop (nh + 5) s);
          marker = ''['' @ h @ '':'' @ m @ (if with_seconds then '':'' @ sec else []) @ '']''
      in if length h = nh \<and> list_all is_digit h \<and> length m = 2 \<and> list_all is_digit m
            \<and> (if with_seconds then length sec = 2 \<and> list_all is_digit sec else True)
            \<and> take (length marker) s = marker
         then Some (marker,
                    if with_seconds then decimal h * 3600 + decimal m * 60 + decimal sec
                    else decimal h * 60 + decimal m)
         else None)"

definition spec_marker_here :: "string \<Rightarrow> (string \<times> nat) option" where
  "spec_marker_here s =
     (case List.map_filter (\<lambda>(nh, with_seconds). spec_fit nh with_seconds s)
             [(1, False), (2, False), (1, True), (2, True)] of
        [] \<Rightarrow> None
      | r # _ \<Rightarrow> Some r)"

text \<open>
  Every marker of the text, by position of its opening bracket, from left to right.
\<close>

definition spec_marker_at :: "string \<Rightarrow> nat \<Rightarrow> (string \<times> nat) option" where
  "spec_marker_at s i = spec_marker_here (drop i s)"

definition spec_links :: "string \<Rightarrow> (string \<times> nat) list" where
  "spec_links s = List.map_filter (spec_marker_at s) [0..<length s]"

text \<open>What the code's matcher yields at the start of a string: the matched text and its seconds.\<close>

definition code_marker_here :: "string \<Rightarrow> (string \<times> nat) option" where
  "code_marker_here s = map_option (\<lambda>m. (m0 m, link_seconds m)) (rx_match_here s)"

section \<open>Streaming chat: wire protocol, transport client, accumulator\<close>

text \<open>
  The types of \<^verbatim>\<open>frontend/src/types\<close>. A \<^verbatim>\<open>Source\<close> and a \<^verbatim>\<open>TimestampSegment\<close> are
  payloads that the client stores and hands on without looking inside; the score and the
  metadata dictionary of a source are left out, and times are whole seconds.
\<close>

datatype Source =
  Source (document_id: string) (chunk_index: nat) (source_content: string)
         (source_timestamp: "(nat \<times> nat) option")

datatype TimestampSegment =
  TimestampSegment (segment_start: nat) (segment_end: nat) (segment_text: string)

text \<open>
  \<^verbatim>\<open>StreamToken\<close>, the object that \<^verbatim>\<open>JSON.parse\<close> yields for an inbound frame. A field is
  \<open>None\<close> when it is absent (for \<open>token\<close>: absent or not a string); \<open>done_flag\<close> is the
  truth value of \<^verbatim>\<open>data.done\<close>.
\<close>

record StreamToken =
  token :: "string option"
  done_flag :: bool
  sources :: "Source list option"
  timestamps :: "TimestampSegment list option"
  error :: "string option"

text \<open>
  The text of \<^verbatim>\<open>event.data\<close>: it parses to a \<^verbatim>\<open>StreamToken\<close>, or the handler's \<^verbatim>\<open>try\<close> block
  throws (\<^verbatim>\<open>JSON.parse\<close> fails, or yields \<^verbatim>\<open>null\<close>) and the \<^verbatim>\<open>catch\<close> only logs.
\<close>

datatype payload = Unparsable | Data StreamToken

datatype role = User | Assistant

record ChatMessage =
  role :: role
  content :: string
  message_sources :: "Source list option"

text \<open>
  A browser \<^verbatim>\<open>WebSocket\<close>. \<open>onopen\<close> is the handler currently installed in \<^verbatim>\<open>ws.onopen\<close>:
  the one \<^verbatim>\<open>connect\<close> installs, or the closure that \<^verbatim>\<open>sendMessage\<close> puts in its place while
  the socket is connecting. The other handlers are installed once by \<^verbatim>\<open>connect\<close> and are the
  same for every socket. \<open>sent\<close> lists the frames given to \<^verbatim>\<open>ws.send\<close>, as message and
  \<^verbatim>\<open>include_timestamps\<close>.
\<close>

datatype readyState = CONNECTING | OPEN | CLOSING | CLOSED

datatype onopen_handler = OnOpenConnect | OnOpenSend string bool

record socket =
  target :: string
  readyState :: readyState
  onopen :: onopen_handler
  sent :: "(string \<times> bool) list"

text \<open>
  The state of one \<^verbatim>\<open>ChatInterface\<close> with its \<^verbatim>\<open>useWebSocket\<close> hook: the component's state
  variables (\<open>ui_error\<close> is the state variable \<^verbatim>\<open>error\<close>), the accumulator
  \<^verbatim>\<open>streamingRef.current\<close>, the hook's state and \<^verbatim>\<open>wsRef.current\<close>. \<open>sockets\<close> is the store of
  every socket created so far; a socket is named by its index, and \<open>wsRef\<close> holds such an
  index or \<open>None\<close> for \<^verbatim>\<open>null\<close>.
\<close>

record chat =
  documentId :: string
  messages :: "ChatMessage list"
  input :: string
  streamingContent :: string
  ui_error :: "string option"
  streamingRef :: string
  isConnected :: bool
  isStreaming :: bool
  wsRef :: "nat option"
  sockets :: "socket list"

definition chat_init :: "string \<Rightarrow> chat" where
  "chat_init d =
     \<lparr>documentId = d, messages = [], input = [], streamingContent = [], ui_error = None,
      streamingRef = [], isConnected = False, isStreaming = False, wsRef = None, sockets = []\<rparr>"

text \<open>
  \<^verbatim>\<open>String.prototype.trim\<close> removes white space and line terminators at both ends. A string
  is modelled with characters below 256; there the characters removed are tab, line feed,
  vertical tab, form feed, carriage return, space and the no-break space.
\<close>

definition is_whitespace :: "char \<Rightarrow> bool" where
  "is_whitespace c = (of_char c \<in> {9, 10, 11, 12, 13, 32, 160 :: nat})"

definition trim :: "string \<Rightarrow> string" where
  "trim s = rev (dropWhile is_whitespace (rev (dropWhile is_whitespace s)))"

subsection \<open>The callbacks of ChatInterface\<close>

text \<open>
  \<^verbatim>\<open>handleMessage\<close>: \<^verbatim>\<open>streamingRef.current += token.token\<close>, then the display copy is set.
  Appending an absent token would append the text \<^verbatim>\<open>undefined\<close>.
\<close>

definition handleMessage :: "StreamToken \<Rightarrow> chat \<Rightarrow> chat" where
  "handleMessage tok st =
     (let acc = streamingRef st @ (case token tok of Some t \<Rightarrow> t | None \<Rightarrow> ''undefined'')
      in st\<lparr>streamingRef := acc, streamingContent := acc\<rparr>)"

definition handleError :: "string \<Rightarrow> chat \<Rightarrow> chat" where
  "handleError errorMsg st = st\<lparr>ui_error := Some errorMsg, streamingContent := []\<rparr>"

definition handleComplete :: "Source list \<Rightarrow> chat \<Rightarrow> chat" where
  "handleComplete response_sources st =
     (let finalAnswer = streamingRef st
      in if trim finalAnswer = [] then st
         else st\<lparr>messages := messages st @
                     [\<lparr>role = Assistant, content = finalAnswer,
                       message_sources = Some response_sources\<rparr>],
                 streamingRef := [],
                 streamingContent := []\<rparr>)"

subsection \<open>The WebSocket interface\<close>

definition upd_socket :: "nat \<Rightarrow> (socket \<Rightarrow> socket) \<Rightarrow> chat \<Rightarrow> chat" where
  "upd_socket ws f st = st\<lparr>sockets := (sockets st)[ws := f (sockets st ! ws)]\<rparr>"

text \<open>
  \<^verbatim>\<open>ws.close()\<close> starts the closing handshake: a connecting or open socket becomes
  \<^verbatim>\<open>CLOSING\<close>, and nothing happens to one that is closing or closed.
\<close>

definition ws_close :: "nat \<Rightarrow> chat \<Rightarrow> chat" where
  "ws_close ws st =
     (if readyState (sockets st ! ws) \<in> {CONNECTING, OPEN}
      then upd_socket ws (\<lambda>k. k\<lparr>readyState := CLOSING\<rparr>) st else st)"

text \<open>
  \<^verbatim>\<open>ws.send(frame)\<close> transmits on an open socket. The client calls it only where the socket is
  open; on a closing or closed socket the browser drops the frame.
\<close>

definition ws_send :: "nat \<Rightarrow> string \<times> bool \<Rightarrow> chat \<Rightarrow> chat" where
  "ws_send ws frame st =
     (if readyState (sockets st ! ws) = OPEN
      then upd_socket ws (\<lambda>k. k\<lparr>sent := sent k @ [frame]\<rparr>) st else st)"

subsection \<open>useWebSocket\<close>

definition connect :: "chat \<Rightarrow> chat" where
  "connect st =
     (if wsRef st \<noteq> None then st
      else st\<lparr>sockets := sockets st @
                  [\<lparr>target = documentId st, readyState = CONNECTING, onopen = OnOpenConnect,
                    sent = []\<rparr>],
              wsRef := Some (length (sockets st))\<rparr>)"

definition disconnect :: "chat \<Rightarrow> chat" where
  "disconnect st =
     (let st1 = (case wsRef st of
                   Some ws \<Rightarrow> (ws_close ws st)\<lparr>wsRef := None\<rparr>
                 | None \<Rightarrow> st)
      in st1\<lparr>isConnected := False, isStreaming := False\<rparr>)"

definition sendMessage :: "string \<Rightarrow> bool \<Rightarrow> chat \<Rightarrow> bool \<times> chat" where
  "sendMessage message includeTimestamps st =
     (let st1 = (if (case wsRef st of None \<Rightarrow> True
                     | Some ws \<Rightarrow> readyState (sockets st ! ws) \<noteq> OPEN)
                 then connect st else st)
      in case wsRef st1 of
           None \<Rightarrow> (False, handleError ''WebSocket not ready'' st1)
         | Some ws \<Rightarrow>
             if readyState (sockets st1 ! ws) = CONNECTING
             then (True, upd_socket ws (\<lambda>k. k\<lparr>onopen := OnOpenSend message includeTimestamps\<rparr>) st1)
             else if readyState (sockets st1 ! ws) \<noteq> OPEN
             then (False, handleError ''WebSocket not connected'' st1)
             else (True, ws_send ws (message, includeTimestamps) (st1\<lparr>isStreaming := True\<rparr>)))"

text \<open>
  The handlers of a socket, run by the browser. The open event runs whichever handler is
  in \<^verbatim>\<open>ws.onopen\<close> at that moment.
\<close>

definition ws_onopen :: "nat \<Rightarrow> chat \<Rightarrow> chat" where
  "ws_onopen ws st =
     (case onopen (sockets st ! ws) of
        OnOpenConnect \<Rightarrow> st\<lparr>isConnected := True\<rparr>
      | OnOpenSend message includeTimestamps \<Rightarrow>
          ws_send ws (message, includeTimestamps) (st\<lparr>isStreaming := True\<rparr>))"

definition ws_onclose :: "nat \<Rightarrow> chat \<Rightarrow> chat" where
  "ws_onclose ws st = st\<lparr>isConnected := False, isStreaming := False, wsRef := None\<rparr>"

definition ws_onerror :: "nat \<Rightarrow> chat \<Rightarrow> chat" where
  "ws_onerror ws st = handleError ''WebSocket connection error'' st"

text \<open>\<^verbatim>\<open>if (data.error)\<close>: an absent field and the empty string are both falsy.\<close>

definition truthy :: "string option \<Rightarrow> bool" where
  "truthy v = (case v of None \<Rightarrow> False | Some e \<Rightarrow> e \<noteq> [])"

definition ws_onmessage :: "nat \<Rightarrow> payload \<Rightarrow> chat \<Rightarrow> chat" where
  "ws_onmessage ws p st =
     (case p of
        Unparsable \<Rightarrow> st
      | Data d \<Rightarrow>
          if truthy (error d)
          then ws_close ws ((handleError (the (error d)) st)\<lparr>isStreaming := False\<rparr>)
          else
            let st1 = (if \<not> done_flag d \<and> truthy (token d) then handleMessage d st else st)
            in if done_flag d
               then ws_close ws
                      (handleComplete (case sources d of Some xs \<Rightarrow> xs | None \<Rightarrow> [])
                         (st1\<lparr>isStreaming := False\<rparr>))
               else st1)"

subsection \<open>handleSubmit\<close>

definition handleSubmit :: "chat \<Rightarrow> chat" where
  "handleSubmit st =
     (if trim (input st) = [] \<or> isStreaming st then st
      else
        let userMessage = \<lparr>role = User, content = trim (input st), message_sources = None\<rparr>;
            st1 = st\<lparr>messages := messages st @ [userMessage], ui_error := None,
                     streamingContent := []\<rparr>;
            (sent_ok, st2) = sendMessage (trim (input st)) True st1
        in if sent_ok then st2\<lparr>input := []\<rparr> else st2)"

subsection \<open>Events\<close>

text \<open>
  What can happen to the component, one event at a time (JavaScript runs each handler to
  completion). \<open>Mount\<close> and \<open>Unmount\<close> are the hook's effect and its cleanup;
  \<open>ChangeDocument\<close> is a new \<^verbatim>\<open>documentId\<close> prop, on which React runs the cleanup of the old
  effect and then the new effect. \<open>Type\<close> is the user's input, into a field that is
  disabled while streaming; \<open>Submit\<close> submits the form and \<open>Send\<close> is a direct call of
  \<^verbatim>\<open>sendMessage\<close>. \<open>SocketOpen\<close>, \<open>SocketClose\<close>, \<open>SocketError\<close> and \<open>SocketMessage\<close>
  are the browser's events on the socket of that index: a socket opens once, from
  \<^verbatim>\<open>CONNECTING\<close>; it closes once; a message event is delivered only while the socket is
  \<^verbatim>\<open>OPEN\<close>.
\<close>

datatype event =
    Mount
  | Unmount
  | ChangeDocument string
  | Type string
  | Submit
  | Send string bool
  | SocketOpen nat
  | SocketClose nat
  | SocketError nat
  | SocketMessage nat payload

definition step :: "event \<Rightarrow> chat \<Rightarrow> chat" where
  "step e st =
     (case e of
        Mount \<Rightarrow> connect st
      | Unmount \<Rightarrow> disconnect st
      | ChangeDocument d \<Rightarrow>
          if d = documentId st then st else connect ((disconnect st)\<lparr>documentId := d\<rparr>)
      | Type s \<Rightarrow> if isStreaming st then st else st\<lparr>input := s\<rparr>
      | Submit \<Rightarrow> handleSubmit st
      | Send message includeTimestamps \<Rightarrow> snd (sendMessage message includeTimestamps st)
      | SocketOpen ws \<Rightarrow>
          if ws < length (sockets st) \<and> readyState (sockets st ! ws) = CONNECTING
          then ws_onopen ws (upd_socket ws (\<lambda>k. k\<lparr>readyState := OPEN\<rparr>) st)
          else st
      | SocketClose ws \<Rightarrow>
          if ws < length (sockets st) \<and> readyState (sockets st ! ws) \<noteq> CLOSED
          then ws_onclose ws (upd_socket ws (\<lambda>k. k\<lparr>readyState := CLOSED\<rparr>) st)
          else st
      | SocketError ws \<Rightarrow>
          if ws < length (sockets st) \<and> readyState (sockets st ! ws) \<noteq> CLOSED
          then ws_onerror ws st
          else st
      | SocketMessage ws p \<Rightarrow>
          if ws < length (sockets st) \<and> readyState (sockets st ! ws) = OPEN
          then ws_onmessage ws p st
          else st)"

definition run :: "event list \<Rightarrow> chat \<Rightarrow> chat" where
  "run es st = fold step es st"

text \<open>The sockets that are live: connecting or open.\<close>

definition live :: "chat \<Rightarrow> nat list" where
  "live st = filter (\<lambda>ws. readyState (sockets st ! ws) \<in> {CONNECTING, OPEN})
               [0..<length (sockets st)]"


text \<open>The frames of the scenarios: a token frame, the terminal frame and an error frame.\<close>

definition token_frame :: "string \<Rightarrow> payload" where
  "token_frame t =
     Data \<lparr>token = Some t, done_flag = False, sources = None, timestamps = None, error = None\<rparr>"

definition terminal_frame :: payload where
  "terminal_frame =
     Data \<lparr>token = None, done_flag = True, sources = Some [], timestamps = Some [],
           error = None\<rparr>"

definition error_frame :: "string \<Rightarrow> payload" where
  "error_frame e =
     Data \<lparr>token = None, done_flag = False, sources = None, timestamps = None, error = Some e\<rparr>"

text \<open>
  Socket \<open>ws\<close> exists, has not been open so far, and the frames sent on it are \<open>frames\<close>.
\<close>

definition unopened :: "nat \<Rightarrow> (string \<times> bool) list \<Rightarrow> chat \<Rightarrow> bool" where
  "unopened ws frames st =
     (ws < length (sockets st) \<and> readyState (sockets st ! ws) \<noteq> OPEN
      \<and> sent (sockets st ! ws) = frames)"

text \<open>
  The events under which the hook keeps its socket: all but the cleanup of the effect,
  which runs on unmount and on a change of document.
\<close>

definition keeps_socket :: "event \<Rightarrow> bool" where
  "keeps_socket e = (case e of Unmount \<Rightarrow> False | ChangeDocument d \<Rightarrow> False | _ \<Rightarrow> True)"

text \<open>\<^verbatim>\<open>wsRef\<close> holds an existing socket or none, and every other socket is closed.\<close>

definition single_ref :: "chat \<Rightarrow> bool" where
  "single_ref st =
     ((case wsRef st of None \<Rightarrow> True | Some ws \<Rightarrow> ws < length (sockets st))
      \<and> (\<forall>i < length (sockets st). wsRef st \<noteq> Some i \<longrightarrow> readyState (sockets st ! i) = CLOSED))"

section \<open>Seek coordination\<close>

text \<open>
  \<^verbatim>\<open>App\<close> holds the state variable \<^verbatim>\<open>seekTimestamp\<close> and passes it to \<^verbatim>\<open>MediaPlayer\<close> as the
  prop \<^verbatim>\<open>seekToTimestamp\<close>. The player seeks in an effect whose dependency array is
  \<^verbatim>\<open>[seekToTimestamp, isReady]\<close>: React runs the effect after the first render and after
  each later render in which one of the two values differs (by \<^verbatim>\<open>Object.is\<close>) from the
  render before. \<open>effect_deps\<close> keeps the dependency values of the effect's last run,
  \<open>seekTo_calls\<close> the calls of \<^verbatim>\<open>playerRef.current.seekTo\<close>. A position is a whole number
  of seconds.
\<close>

record player =
  seekTimestamp :: "int option"
  isReady :: bool
  readyOnceRef :: bool
  playing :: bool
  effect_deps :: "(int option \<times> bool) option"
  seekTo_calls :: "int list"

definition seek_effect :: "player \<Rightarrow> player" where
  "seek_effect st =
     (case seekTimestamp st of
        Some seconds \<Rightarrow>
          if isReady st then st\<lparr>seekTo_calls := seekTo_calls st @ [seconds], playing := True\<rparr>
          else st
      | None \<Rightarrow> st)"

definition render :: "player \<Rightarrow> player" where
  "render st =
     (let deps = (seekTimestamp st, isReady st)
      in if effect_deps st = Some deps then st
         else (seek_effect st)\<lparr>effect_deps := Some deps\<rparr>)"

definition player_init :: player where
  "player_init =
     render \<lparr>seekTimestamp = None, isReady = False, readyOnceRef = False, playing = False,
             effect_deps = None, seekTo_calls = []\<rparr>"

definition setSeekTimestamp :: "int option \<Rightarrow> player \<Rightarrow> player" where
  "setSeekTimestamp v st = render (st\<lparr>seekTimestamp := v\<rparr>)"

definition handleSeekToTimestamp :: "int \<Rightarrow> player \<Rightarrow> player" where
  "handleSeekToTimestamp seconds st = setSeekTimestamp (Some seconds) st"

definition onReady :: "player \<Rightarrow> player" where
  "onReady st =
     (if readyOnceRef st then st else render (st\<lparr>readyOnceRef := True, isReady := True\<rparr>))"

section \<open>Document status poller\<close>

datatype file_type = Pdf | Audio | Video

record Document =
  doc_id :: string
  filename :: string
  file_type :: file_type
  file_size :: nat
  summary :: "string option"
  processed :: bool
  created_at :: string
  chunk_count :: nat

text \<open>
  The polling effect of \<^verbatim>\<open>App\<close> starts \<^verbatim>\<open>setInterval\<close> with an asynchronous callback. A
  callback that has begun is a cycle: it walks the list \<^verbatim>\<open>unprocessedDocs\<close> that the effect
  computed, awaiting \<^verbatim>\<open>getDocumentStatus\<close> for one document after the other, and it keeps
  the \<^verbatim>\<open>selectedDocument\<close> of the render in which the effect ran. \<open>pending\<close> lists the
  documents a cycle has still to deal with; the head is the one whose status it awaits.
\<close>

record poll_cycle =
  pending :: "Document list"
  cycle_selected :: "Document option"

text \<open>
  \<open>interval\<close> is the running timer, with the two values its callback closes over; \<open>None\<close>
  when no timer runs. \<open>cycles\<close> lists every cycle begun so far, and \<open>status_queries\<close> the
  calls of \<^verbatim>\<open>getDocumentStatus\<close>, each with the index of the cycle that made it.
\<close>

record app =
  documents :: "Document list"
  selectedDocument :: "Document option"
  interval :: "(Document list \<times> Document option) option"
  cycles :: "poll_cycle list"
  status_queries :: "(nat \<times> string) list"

definition app_init :: app where
  "app_init =
     \<lparr>documents = [], selectedDocument = None, interval = None, cycles = [],
      status_queries = []\<rparr>"

text \<open>
  The effect, run again (after its cleanup \<^verbatim>\<open>clearInterval\<close>) whenever \<^verbatim>\<open>documents\<close> or
  \<^verbatim>\<open>selectedDocument\<close> has changed.
\<close>

definition poll_closure :: "app \<Rightarrow> (Document list \<times> Document option) option" where
  "poll_closure st =
     (let unprocessedDocs = filter (\<lambda>d. \<not> processed d) (documents st)
      in if unprocessedDocs = [] then None else Some (unprocessedDocs, selectedDocument st))"

definition poll_effect :: "app \<Rightarrow> app" where
  "poll_effect st = st\<lparr>interval := poll_closure st\<rparr>"

text \<open>Cycle \<open>k\<close> reaches \<^verbatim>\<open>await getDocumentStatus(doc.id)\<close> for the head of its list.\<close>

definition issue_query :: "nat \<Rightarrow> app \<Rightarrow> app" where
  "issue_query k st =
     (case pending (cycles st ! k) of
        [] \<Rightarrow> st
      | doc # _ \<Rightarrow> st\<lparr>status_queries := status_queries st @ [(k, doc_id doc)]\<rparr>)"

definition interval_tick :: "app \<Rightarrow> app" where
  "interval_tick st =
     (case interval st of
        None \<Rightarrow> st
      | Some (unprocessedDocs, selected) \<Rightarrow>
          issue_query (length (cycles st))
            (st\<lparr>cycles := cycles st @
                    [\<lparr>pending = unprocessedDocs, cycle_selected = selected\<rparr>]\<rparr>))"

text \<open>
  The awaited call of cycle \<open>k\<close> returns: \<open>Some updated\<close>, or \<open>None\<close> when it throws (the
  \<^verbatim>\<open>catch\<close> logs the error). The loop then goes on to the next document of its list.
\<close>

definition apply_status :: "poll_cycle \<Rightarrow> Document \<Rightarrow> app \<Rightarrow> app" where
  "apply_status c updated st =
     (if processed updated
      then
        let st1 = st\<lparr>documents :=
                       map (\<lambda>d. if doc_id d = doc_id updated then updated else d) (documents st)\<rparr>;
            st2 = (if (case cycle_selected c of None \<Rightarrow> False
                       | Some s \<Rightarrow> doc_id s = doc_id updated)
                   then st1\<lparr>selectedDocument := Some updated\<rparr> else st1)
        in poll_effect st2
      else st)"

definition status_reply :: "nat \<Rightarrow> Document option \<Rightarrow> app \<Rightarrow> app" where
  "status_reply k result st =
     (if k < length (cycles st) \<and> pending (cycles st ! k) \<noteq> []
      then
        let c = cycles st ! k;
            st1 = (case result of None \<Rightarrow> st | Some updated \<Rightarrow> apply_status c updated st);
            st2 = st1\<lparr>cycles := (cycles st1)[k := c\<lparr>pending := tl (pending c)\<rparr>]\<rparr>
        in issue_query k st2
      else st)"

definition handleUploadComplete :: "Document \<Rightarrow> app \<Rightarrow> app" where
  "handleUploadComplete document st =
     poll_effect (st\<lparr>documents := document # documents st, selectedDocument := Some document\<rparr>)"

definition handleSelectDocument :: "Document \<Rightarrow> app \<Rightarrow> app" where
  "handleSelectDocument document st = poll_effect (st\<lparr>selectedDocument := Some document\<rparr>)"

definition loadDocuments :: "Document list \<Rightarrow> app \<Rightarrow> app" where
  "loadDocuments response st = poll_effect (st\<lparr>documents := response\<rparr>)"

text \<open>
  A click on entry \<open>i\<close> of \<^verbatim>\<open>DocumentList\<close>, whose handler is
  \<^verbatim>\<open>doc.processed && onSelect(doc)\<close>: only a processed document can be selected there.
\<close>

definition clickDocument :: "nat \<Rightarrow> app \<Rightarrow> app" where
  "clickDocument i st =
     (if i < length (documents st) \<and> processed (documents st ! i)
      then handleSelectDocument (documents st ! i) st else st)"

text \<open>
  The events of \<^verbatim>\<open>App\<close> that bear on polling: a tick of the timer, the answer to the
  status query that a cycle awaits, a finished upload, a click in the document list and the
  list returned by \<^verbatim>\<open>loadDocuments\<close>. Deleting a document is not modelled.
\<close>

datatype app_event =
    IntervalTick
  | StatusReply nat "Document option"
  | UploadComplete Document
  | ClickDocument nat
  | DocumentsLoaded "Document list"

definition app_step :: "app_event \<Rightarrow> app \<Rightarrow> app" where
  "app_step e st =
     (case e of
        IntervalTick \<Rightarrow> interval_tick st
      | StatusReply k result \<Rightarrow> status_reply k result st
      | UploadComplete document \<Rightarrow> handleUploadComplete document st
      | ClickDocument i \<Rightarrow> clickDocument i st
      | DocumentsLoaded response \<Rightarrow> loadDocuments response st)"

definition app_run :: "app_event list \<Rightarrow> app \<Rightarrow> app" where
  "app_run es st = fold app_step es st"

text \<open>The events that bring no document into the collection: all but uploads and reloads.\<close>

definition keeps_documents :: "app_event \<Rightarrow> bool" where
  "keeps_documents e =
     (case e of UploadComplete document \<Rightarrow> False | DocumentsLoaded response \<Rightarrow> False
      | _ \<Rightarrow> True)"

text \<open>
  The server gives every upload an identifier of its own: a run is admissible when the
  identifier of each uploaded document is new to the collection and to the cycles under
  way.
\<close>

definition fresh_upload :: "app_event \<Rightarrow> app \<Rightarrow> bool" where
  "fresh_upload e st =
     (case e of
        UploadComplete document \<Rightarrow>
          doc_id document \<notin> doc_id ` set (documents st)
          \<and> list_all (\<lambda>c. doc_id document \<notin> doc_id ` set (pending c)) (cycles st)
      | _ \<Rightarrow> True)"

fun admissible :: "app_event list \<Rightarrow> app \<Rightarrow> bool" where
  "admissible [] st = True"
| "admissible (e # es) st = (fresh_upload e st \<and> admissible es (app_step e st))"


text \<open>
  A state is settled when the timer is the one the effect installs for the present
  \<^verbatim>\<open>documents\<close> and \<^verbatim>\<open>selectedDocument\<close>; React keeps it so.
\<close>

definition settled :: "app \<Rightarrow> bool" where
  "settled st = (interval st = poll_closure st)"

text \<open>
  While the selected object is an unprocessed one, every cycle that still holds a document
  with its identifier began with that document selected.
\<close>

definition selection_held :: "app \<Rightarrow> bool" where
  "selection_held st =
     (case selectedDocument st of
        None \<Rightarrow> True
      | Some s \<Rightarrow>
          processed s \<or>
          list_all (\<lambda>c. doc_id s \<in> doc_id ` set (pending c)
                         \<longrightarrow> (case cycle_selected c of None \<Rightarrow> False
                              | Some s' \<Rightarrow> doc_id s' = doc_id s))
            (cycles st))"

text \<open>Every record with the identifier \<open>x\<close> is marked processed.\<close>

definition doc_settled :: "string \<Rightarrow> app \<Rightarrow> bool" where
  "doc_settled x st = list_all (\<lambda>d. doc_id d = x \<longrightarrow> processed d) (documents st)"

text \<open>
  The invariant behind the poller's convergence: from cycle \<open>n\<close> on, no cycle holds a
  document with the identifier \<open>x\<close>, and from the \<open>m\<close>-th query on, none of those cycles
  has asked for \<open>x\<close>.
\<close>

definition later_inv :: "string \<Rightarrow> nat \<Rightarrow> nat \<Rightarrow> app \<Rightarrow> bool" where
  "later_inv x n m st =
     (settled st \<and> doc_settled x st \<and> n \<le> length (cycles st)
      \<and> list_all (\<lambda>c. x \<notin> doc_id ` set (pending c)) (drop n (cycles st))
      \<and> m \<le> length (status_queries st)
      \<and> list_all (\<lambda>(c, y). n \<le> c \<longrightarrow> y \<noteq> x) (drop m (status_queries st)))"


text \<open>Documents and states of the poller scenarios.\<close>

definition mk_doc :: "string \<Rightarrow> bool \<Rightarrow> Document" where
  "mk_doc i p =
     \<lparr>doc_id = i, filename = i, file_type = Audio, file_size = 1, summary = None,
      processed = p, created_at = [], chunk_count = 0\<rparr>"

definition two_cycles_events :: "app_event list" where
  "two_cycles_events =
     [DocumentsLoaded [mk_doc ''b'' False], UploadComplete (mk_doc ''a'' False),
      IntervalTick, IntervalTick, StatusReply 0 (Some (mk_doc ''a'' False))]"

definition two_cycles :: app where
  "two_cycles = app_run two_cycles_events app_init"

section \<open>Properties of the timestamp grammar\<close>

lemma not_digit [simp]:
  "\<not> is_digit CHR '':''" "\<not> is_digit CHR '']''" "\<not> is_digit CHR ''[''"
  by (simp_all add: is_digit_def)

lemma parseInt1 [simp]: "is_digit a \<Longrightarrow> parseInt [a] = digit_value a"
  by (simp add: parseInt_def)

lemma parseInt2 [simp]:
  "is_digit a \<Longrightarrow> is_digit b \<Longrightarrow> parseInt [a, b] = 10 * digit_value a + digit_value b"
  by (simp add: parseInt_def)

lemma decimal1 [simp]: "decimal [a] = digit_value a"
  by (simp add: decimal_def)

lemma decimal2 [simp]: "decimal [a, b] = 10 * digit_value a + digit_value b"
  by (simp add: decimal_def)

text \<open>
  The matcher and the specification's reading of a marker agree at the start of every
  string. Both look at no more than ten characters, so the proof goes by the length of the
  string.
\<close>

lemmas rx_defs = rx_match_here_def rx_hour_def rx_after_hour_def rx_digits_def rx_char_def
  rx_or_def link_seconds_def spec_marker_here_def spec_fit_def List.map_filter_def

lemma here_eq_0: "code_marker_here [] = spec_marker_here []"
  by (simp add: code_marker_here_def rx_defs Let_def)

lemma here_eq_1: "code_marker_here [a] = spec_marker_here [a]"
  by (simp add: code_marker_here_def rx_defs Let_def)

lemma here_eq_2: "code_marker_here [a, b] = spec_marker_here [a, b]"
  by (simp add: code_marker_here_def rx_defs Let_def)

lemma here_eq_3: "code_marker_here [a, b, c] = spec_marker_here [a, b, c]"
  by (simp add: code_marker_here_def rx_defs Let_def)

lemma here_eq_4: "code_marker_here [a, b, c, d] = spec_marker_here [a, b, c, d]"
  by (simp add: code_marker_here_def rx_defs Let_def)

lemma here_eq_5: "code_marker_here [a, b, c, d, e] = spec_marker_here [a, b, c, d, e]"
  by (simp add: code_marker_here_def rx_defs Let_def)

lemma here_eq_6: "code_marker_here [a, b, c, d, e, f] = spec_marker_here [a, b, c, d, e, f]"
  by (simp add: code_marker_here_def rx_defs Let_def)

lemma here_eq_7:
  "code_marker_here [a, b, c, d, e, f, g] = spec_marker_here [a, b, c, d, e, f, g]"
  by (simp add: code_marker_here_def rx_defs Let_def)

lemma here_eq_8:
  "code_marker_here [a, b, c, d, e, f, g, h] = spec_marker_here [a, b, c, d, e, f, g, h]"
  by (simp add: code_marker_here_def rx_defs Let_def)

lemma here_eq_9:
  "code_marker_here [a, b, c, d, e, f, g, h, i] = spec_marker_here [a, b, c, d, e, f, g, h, i]"
  by (simp add: code_marker_here_def rx_defs Let_def)

lemma here_eq_long:
  "code_marker_here (a # b # c # d # e # f # g # h # i # j # r)
     = spec_marker_here (a # b # c # d # e # f # g # h # i # j # r)"
  by (simp add: code_marker_here_def rx_defs Let_def)

lemma length_cases:
  fixes s :: "'a list"
  obtains "s = []"
  | a where "s = [a]"
  | a b where "s = [a, b]"
  | a b c where "s = [a, b, c]"
  | a b c d where "s = [a, b, c, d]"
  | a b c d e where "s = [a, b, c, d, e]"
  | a b c d e f where "s = [a, b, c, d, e, f]"
  | a b c d e f g where "s = [a, b, c, d, e, f, g]"
  | a b c d e f g h where "s = [a, b, c, d, e, f, g, h]"
  | a b c d e f g h i where "s = [a, b, c, d, e, f, g, h, i]"
  | a b c d e f g h i j r where "s = a # b # c # d # e # f # g # h # i # j # r"
proof -
  have "length s = 0 \<or> length s = 1 \<or> length s = 2 \<or> length s = 3 \<or> length s = 4
    \<or> length s = 5 \<or> length s = 6 \<or> length s = 7 \<or> length s = 8 \<or> length s = 9
    \<or> 10 \<le> length s"
    by presburger
  then consider "length s = 0" | "length s = 1" | "length s = 2" | "length s = 3"
    | "length s = 4" | "length s = 5" | "length s = 6" | "length s = 7" | "length s = 8"
    | "length s = 9" | "10 \<le> length s"
    by blast
  then show thesis
  proof cases
    case 1 then show ?thesis using that(1) by simp
  next
    case 2 then show ?thesis using that(2) by (auto simp: numeral_eq_Suc length_Suc_conv)
  next
    case 3 then show ?thesis using that(3) by (auto simp: numeral_eq_Suc length_Suc_conv)
  next
    case 4 then show ?thesis using that(4) by (auto simp: numeral_eq_Suc length_Suc_conv)
  next
    case 5 then show ?thesis using that(5) by (auto simp: numeral_eq_Suc length_Suc_conv)
  next
    case 6 then show ?thesis using that(6) by (auto simp: numeral_eq_Suc length_Suc_conv)
  next
    case 7 then show ?thesis using that(7) by (auto simp: numeral_eq_Suc length_Suc_conv)
  next
    case 8 then show ?thesis using that(8) by (auto simp: numeral_eq_Suc length_Suc_conv)
  next
    case 9 then show ?thesis using that(9) by (auto simp: numeral_eq_Suc length_Suc_conv)
  next
    case 10 then show ?thesis using that(10) by (auto simp: numeral_eq_Suc length_Suc_conv)
  next
    case 11 then show ?thesis using that(11) by (auto simp: numeral_eq_Suc Suc_le_length_iff)
  qed
qed

lemma here_eq: "code_marker_here s = spec_marker_here s"
  by (cases s rule: length_cases)
     (simp_all only: here_eq_0 here_eq_1 here_eq_2 here_eq_3 here_eq_4 here_eq_5
        here_eq_6 here_eq_7 here_eq_8 here_eq_9 here_eq_long)

lemma here_None: "rx_match_here s = None \<Longrightarrow> spec_marker_here s = None"
  using here_eq [of s] by (simp add: code_marker_here_def)

lemma here_Some: "rx_match_here s = Some m \<Longrightarrow> spec_marker_here s = Some (m0 m, link_seconds m)"
  using here_eq [of s] by (simp add: code_marker_here_def)

text \<open>The text of a match is an opening bracket followed by characters that are not one.\<close>

lemma rx_char_shape: "rx_char c s = Some r \<Longrightarrow> s = c # r"
  by (auto simp: rx_char_def split: list.splits if_splits)

lemma rx_digits_shape:
  "rx_digits n s = Some (g, r) \<Longrightarrow> s = g @ r \<and> CHR ''['' \<notin> set g"
  by (auto simp: rx_digits_def list_all_iff split: if_splits dest: in_set_takeD)

lemma rx_after_hour_shape:
  assumes "rx_after_hour s = Some (g2, g3, r)"
  shows "\<exists>b. s = b @ r \<and> CHR ''['' \<notin> set b"
proof -
  from assms obtain s1 s2 where a: "rx_char CHR '':'' s = Some s1" "rx_digits 2 s1 = Some (g2, s2)"
    by (auto simp: rx_after_hour_def rx_or_def
             split: option.splits prod.splits Option.bind_splits)
  have s: "s = CHR '':'' # g2 @ s2" "CHR ''['' \<notin> set g2"
    using rx_char_shape [OF a(1)] rx_digits_shape [OF a(2)] by auto
  show ?thesis
  proof (cases g3)
    case None
    with assms a have "rx_char CHR '']'' s2 = Some r"
      by (auto simp: rx_after_hour_def rx_or_def
               split: option.splits prod.splits Option.bind_splits)
    then have "s2 = CHR '']'' # r" by (rule rx_char_shape)
    with s have "s = (CHR '':'' # g2 @ '']'') @ r \<and> CHR ''['' \<notin> set (CHR '':'' # g2 @ '']'')"
      by simp
    then show ?thesis by blast
  next
    case (Some x)
    with assms a obtain s3 s4 where b: "rx_char CHR '':'' s2 = Some s3"
      "rx_digits 2 s3 = Some (x, s4)" "rx_char CHR '']'' s4 = Some r"
      by (auto simp: rx_after_hour_def rx_or_def
               split: option.splits prod.splits Option.bind_splits)
    have "s2 = CHR '':'' # x @ CHR '']'' # r" "CHR ''['' \<notin> set x"
      using rx_char_shape [OF b(1)] rx_digits_shape [OF b(2)] rx_char_shape [OF b(3)] by auto
    with s have "s = (CHR '':'' # g2 @ CHR '':'' # x @ '']'') @ r
        \<and> CHR ''['' \<notin> set (CHR '':'' # g2 @ CHR '':'' # x @ '']'')"
      by simp
    then show ?thesis by blast
  qed
qed

lemma rx_hour_shape:
  assumes "rx_hour n s = Some (g1, g2, g3, r)"
  shows "\<exists>b. s = b @ r \<and> CHR ''['' \<notin> set b"
proof -
  from assms obtain s1 where a: "rx_digits n s = Some (g1, s1)"
    "rx_after_hour s1 = Some (g2, g3, r)"
    by (auto simp: rx_hour_def split: option.splits prod.splits Option.bind_splits)
  from rx_after_hour_shape [OF a(2)] obtain b where "s1 = b @ r" "CHR ''['' \<notin> set b"
    by blast
  with rx_digits_shape [OF a(1)] have "s = (g1 @ b) @ r \<and> CHR ''['' \<notin> set (g1 @ b)"
    by simp
  then show ?thesis by blast
qed

lemma rx_match_here_shape:
  assumes "rx_match_here s = Some m"
  shows "\<exists>b r. s = CHR ''['' # b @ r \<and> m0 m = CHR ''['' # b \<and> CHR ''['' \<notin> set b"
proof -
  from assms obtain s0 g1 g2 g3 r n where a: "rx_char CHR ''['' s = Some s0"
    "rx_hour n s0 = Some (g1, g2, g3, r)" "m0 m = take (length s - length r) s"
    by (auto simp: rx_match_here_def rx_or_def
             split: option.splits prod.splits Option.bind_splits)
  from rx_hour_shape [OF a(2)] obtain b where b: "s0 = b @ r" "CHR ''['' \<notin> set b"
    by blast
  with rx_char_shape [OF a(1)] have s: "s = CHR ''['' # b @ r" by simp
  with a(3) have "m0 m = CHR ''['' # b" by simp
  with s b show ?thesis by blast
qed

lemma rx_match_here_inner:
  assumes "rx_match_here s = Some m" "0 < k" "k < length (m0 m)"
  shows "rx_match_here (drop k s) = None"
proof -
  from rx_match_here_shape [OF assms(1)] obtain b r where
    s: "s = CHR ''['' # b @ r" "m0 m = CHR ''['' # b" "CHR ''['' \<notin> set b"
    by blast
  from assms(2) obtain k' where k: "k = Suc k'" by (cases k) auto
  with assms(3) s have k': "k' < length b" by simp
  then have "drop k s = b ! k' # drop (Suc k') b @ r"
    using s k by (simp add: Cons_nth_drop_Suc)
  moreover from k' s(3) have "b ! k' \<noteq> CHR ''[''"
    by (metis nth_mem)
  ultimately show ?thesis
    by (simp add: rx_match_here_def rx_char_def)
qed

text \<open>
  \<^verbatim>\<open>exec\<close> finds the first marker at or after \<^verbatim>\<open>lastIndex\<close>, and no marker begins inside it.
\<close>

lemma regex_exec_None:
  "regex_exec t i = None \<Longrightarrow> List.map_filter (spec_marker_at t) [i..<length t] = []"
proof (induction t i rule: regex_exec.induct)
  case (1 t i)
  show ?case
  proof (cases "i < length t")
    case False
    then show ?thesis by (simp add: List.map_filter_def)
  next
    case True
    with "1.prems" have n: "rx_match_here (drop i t) = None" and r: "regex_exec t (Suc i) = None"
      by (subst (asm) regex_exec.simps, auto split: option.splits)+
    from n have "spec_marker_at t i = None"
      by (simp add: spec_marker_at_def here_None)
    moreover from True n r "1.IH"
    have "List.map_filter (spec_marker_at t) [Suc i..<length t] = []"
      by simp
    ultimately show ?thesis
      using True by (simp add: upt_conv_Cons List.map_filter_def)
  qed
qed

lemma regex_exec_Some:
  "regex_exec t i = Some (m, j) \<Longrightarrow>
     List.map_filter (spec_marker_at t) [i..<length t]
       = (m0 m, link_seconds m) # List.map_filter (spec_marker_at t) [j..<length t]"
proof (induction t i rule: regex_exec.induct)
  case (1 t i)
  from "1.prems" have le: "i \<le> length t"
    by (subst (asm) regex_exec.simps) (auto split: if_splits)
  show ?case
  proof (cases "rx_match_here (drop i t)")
    case None
    with "1.prems" le have r: "regex_exec t (Suc i) = Some (m, j)"
      by (subst (asm) regex_exec.simps) auto
    from regex_exec_bounds [OF r] have lt: "i < length t" by simp
    from None have "spec_marker_at t i = None"
      by (simp add: spec_marker_at_def here_None)
    moreover from le None r "1.IH"
    have "List.map_filter (spec_marker_at t) [Suc i..<length t]
       = (m0 m, link_seconds m) # List.map_filter (spec_marker_at t) [j..<length t]"
      by simp
    ultimately show ?thesis
      using lt by (simp add: upt_conv_Cons List.map_filter_def)
  next
    case (Some m')
    with "1.prems" le have m: "m' = m" and j: "j = i + length (m0 m)"
      by (subst (asm) regex_exec.simps, auto)+
    from rx_match_here_length [OF Some] m
    have len: "6 \<le> length (m0 m)" "i + length (m0 m) \<le> length t"
      by auto
    from Some m have hi: "spec_marker_at t i = Some (m0 m, link_seconds m)"
      by (simp add: spec_marker_at_def here_Some)
    have inner: "spec_marker_at t k = None" if "k \<in> set [Suc i..<j]" for k
    proof -
      from that j have "0 < k - i" "k - i < length (m0 m)" by auto
      from rx_match_here_inner [OF Some [unfolded m] this]
      have "rx_match_here (drop k t) = None"
        using that by simp
      then show ?thesis
        by (simp add: spec_marker_at_def here_None)
    qed
    have "[Suc i..<j + (length t - j)] = [Suc i..<j] @ [j..<j + (length t - j)]"
      using len j by (intro upt_add_eq_append) simp
    with len j have "[i..<length t] = i # [Suc i..<j] @ [j..<length t]"
      by (simp add: upt_conv_Cons)
    moreover have "List.map_filter (spec_marker_at t) [Suc i..<j] = []"
      using inner by (simp add: List.map_filter_def filter_empty_conv)
    ultimately show ?thesis
      using hi by (simp add: List.map_filter_def)
  qed
qed

lemma parse_loop_eq:
  "parse_loop t i links = links @ List.map_filter (spec_marker_at t) [i..<length t]"
proof (induction t i links rule: parse_loop.induct)
  case (1 t i links)
  show ?case
  proof (cases "regex_exec t i")
    case None
    then show ?thesis
      by (subst parse_loop.simps) (simp add: regex_exec_None)
  next
    case (Some r)
    obtain m j where r: "r = (m, j)" by (cases r)
    with Some have e: "regex_exec t i = Some (m, j)" by simp
    have "parse_loop t i links = parse_loop t j (links @ [(m0 m, link_seconds m)])"
      by (subst parse_loop.simps) (simp add: e)
    also have "\<dots> = (links @ [(m0 m, link_seconds m)])
                      @ List.map_filter (spec_marker_at t) [j..<length t]"
      by (rule "1.IH" [OF e refl])
    also have "\<dots> = links @ List.map_filter (spec_marker_at t) [i..<length t]"
      using regex_exec_Some [OF e] by simp
    finally show ?thesis .
  qed
qed

lemma parse_refines_spec: "parseTimestampLinks s = spec_links s"
  by (simp add: parseTimestampLinks_def spec_links_def parse_loop_eq)

text \<open>Two markers never overlap: no marker begins inside another one.\<close>

lemma spec_marker_inner:
  assumes "spec_marker_at s i = Some (marker, seconds)" "i < j" "j < i + length marker"
  shows "spec_marker_at s j = None"
proof -
  from assms(1) here_eq [of "drop i s"] obtain m where
    m: "rx_match_here (drop i s) = Some m" "m0 m = marker"
    by (auto simp: spec_marker_at_def code_marker_here_def)
  from assms(2,3) m(2) have "0 < j - i" "j - i < length (m0 m)" by auto
  from rx_match_here_inner [OF m(1) this] assms(2)
  have "rx_match_here (drop j s) = None" by simp
  then show ?thesis
    by (simp add: spec_marker_at_def here_None)
qed

text \<open>
  Claim C4. For every input string, \<^verbatim>\<open>parseTimestampLinks\<close> returns every bracketed marker
  of the form \<^verbatim>\<open>[H:MM]\<close>, \<^verbatim>\<open>[H:MM:SS]\<close> or \<^verbatim>\<open>[HH:MM:SS]\<close> (first group of one or two
  digits, the others of exactly two), from left to right in order of appearance, each with
  its literal text and its seconds (\<open>H * 3600 + M * 60 + S\<close> for three groups, \<open>M * 60 + S\<close>
  for two). Markers never overlap: no marker begins inside another. The text
  \<^verbatim>\<open>see [1:23] and [01:02:03]\<close> yields \<^verbatim>\<open>[1:23]\<close> with 83 and \<^verbatim>\<open>[01:02:03]\<close> with 3723, in
  that order, and malformed brackets yield nothing.
\<close>

theorem parseTimestampLinks_every_marker:
  "parseTimestampLinks s = List.map_filter (spec_marker_at s) [0..<length s]
   \<and> (spec_marker_at s i = Some (marker, seconds) \<and> i < j \<and> j < i + length marker
        \<longrightarrow> spec_marker_at s j = None)
   \<and> parseTimestampLinks ''see [1:23] and [01:02:03]''
        = [(''[1:23]'', 83), (''[01:02:03]'', 3723)]
   \<and> parseTimestampLinks ''[123:45] [1:2] [1-23] [1:23:4] [12:345] [:12] [1:23'' = []"
proof (intro conjI impI)
  show "parseTimestampLinks s = List.map_filter (spec_marker_at s) [0..<length s]"
    using parse_refines_spec [of s] by (simp add: spec_links_def)
next
  assume "spec_marker_at s i = Some (marker, seconds) \<and> i < j \<and> j < i + length marker"
  then show "spec_marker_at s j = None"
    using spec_marker_inner [of s i marker seconds j] by blast
next
  show "parseTimestampLinks ''see [1:23] and [01:02:03]''
          = [(''[1:23]'', 83), (''[01:02:03]'', 3723)]"
    by code_simp
next
  show "parseTimestampLinks ''[123:45] [1:2] [1-23] [1:23:4] [12:345] [:12] [1:23'' = []"
    by code_simp
qed

theorem parseTimestampLinks_every_marker_witness:
  "spec_marker_at ''see [1:23] and [01:02:03]'' 4 = Some (''[1:23]'', 83)
   \<and> (4::nat) < 7 \<and> 7 < 4 + length ''[1:23]''
   \<and> spec_marker_at ''see [1:23] and [01:02:03]'' 7 = None
   \<and> parseTimestampLinks ''see [1:23] and [01:02:03]''
        = List.map_filter (spec_marker_at ''see [1:23] and [01:02:03]'')
            [0..<length ''see [1:23] and [01:02:03]'']"
proof -
  have h: "spec_marker_at ''see [1:23] and [01:02:03]'' 4 = Some (''[1:23]'', 83)"
    by code_simp
  have l: "(4::nat) < 7 \<and> 7 < 4 + length ''[1:23]''"
    by simp
  from h l
    parseTimestampLinks_every_marker
      [of "''see [1:23] and [01:02:03]''" 4 "''[1:23]''" 83 7]
  show ?thesis by blast
qed

section \<open>Properties of the streaming chat\<close>

lemma trim_empty_iff: "trim s = [] \<longleftrightarrow> list_all is_whitespace s"
proof
  assume "list_all is_whitespace s"
  then show "trim s = []"
    by (auto simp: trim_def list_all_iff dest: set_dropWhileD)
next
  assume "trim s = []"
  then have a: "\<forall>x \<in> set (dropWhile is_whitespace s). is_whitespace x"
    by (simp add: trim_def)
  have "dropWhile is_whitespace s = []"
  proof (rule ccontr)
    assume n: "dropWhile is_whitespace s \<noteq> []"
    then have "\<not> is_whitespace (hd (dropWhile is_whitespace s))"
      by (rule hd_dropWhile)
    moreover from n have "hd (dropWhile is_whitespace s) \<in> set (dropWhile is_whitespace s)"
      by simp
    ultimately show False using a by blast
  qed
  then show "list_all is_whitespace s"
    by (simp add: list_all_iff)
qed

lemma nth_upd:
  "ws < length xs \<Longrightarrow> (xs[j := f (xs ! j)]) ! ws = (if j = ws then f (xs ! ws) else xs ! ws)"
  by (cases "j < length xs") (auto simp: nth_list_update)

lemma unopened_handlers [simp]:
  "unopened ws fr (handleError e st) = unopened ws fr st"
  "unopened ws fr (handleMessage d st) = unopened ws fr st"
  "unopened ws fr (handleComplete srcs st) = unopened ws fr st"
  "unopened ws fr (ws_onclose j st) = unopened ws fr st"
  "unopened ws fr (ws_onerror j st) = unopened ws fr st"
  by (simp_all add: unopened_def handleError_def handleMessage_def handleComplete_def Let_def
        ws_onclose_def ws_onerror_def)

lemma unopened_fields [simp]:
  "unopened ws fr (st\<lparr>isStreaming := b\<rparr>) = unopened ws fr st"
  "unopened ws fr (st\<lparr>isConnected := b\<rparr>) = unopened ws fr st"
  "unopened ws fr (st\<lparr>wsRef := r\<rparr>) = unopened ws fr st"
  "unopened ws fr (st\<lparr>input := i\<rparr>) = unopened ws fr st"
  "unopened ws fr (st\<lparr>documentId := d\<rparr>) = unopened ws fr st"
  "unopened ws fr (st\<lparr>messages := ms\<rparr>) = unopened ws fr st"
  "unopened ws fr (st\<lparr>ui_error := ue\<rparr>) = unopened ws fr st"
  "unopened ws fr (st\<lparr>streamingContent := sc\<rparr>) = unopened ws fr st"
  by (simp_all add: unopened_def)

lemma unopened_ws_close: "unopened ws fr st \<Longrightarrow> unopened ws fr (ws_close j st)"
  by (auto simp: unopened_def ws_close_def upd_socket_def nth_upd)

lemma unopened_ws_send: "unopened ws fr st \<Longrightarrow> unopened ws fr (ws_send j f st)"
  by (auto simp: unopened_def ws_send_def upd_socket_def nth_upd)

lemma unopened_connect: "unopened ws fr st \<Longrightarrow> unopened ws fr (connect st)"
  by (auto simp: unopened_def connect_def nth_append)

lemma unopened_disconnect: "unopened ws fr st \<Longrightarrow> unopened ws fr (disconnect st)"
  by (auto simp: disconnect_def Let_def unopened_ws_close split: option.splits)

lemma unopened_set_onopen:
  "unopened ws fr st \<Longrightarrow> unopened ws fr (upd_socket j (\<lambda>k. k\<lparr>onopen := h\<rparr>) st)"
  by (auto simp: unopened_def upd_socket_def nth_upd)

lemma unopened_sendMessage:
  "unopened ws fr st \<Longrightarrow> unopened ws fr (snd (sendMessage message ts st))"
  by (auto simp: sendMessage_def Let_def unopened_connect unopened_ws_send unopened_set_onopen
           split: option.splits)

lemma unopened_handleSubmit: "unopened ws fr st \<Longrightarrow> unopened ws fr (handleSubmit st)"
proof -
  assume a: "unopened ws fr st"
  define st1 where "st1 = st\<lparr>messages := messages st @
      [\<lparr>role = User, content = trim (input st), message_sources = None\<rparr>],
      ui_error := None, streamingContent := []\<rparr>"
  from a have "unopened ws fr st1" by (simp add: st1_def)
  from unopened_sendMessage [OF this, of "trim (input st)" True] a show ?thesis
    by (simp add: handleSubmit_def Let_def st1_def split_def)
qed

lemma unopened_ws_onmessage: "unopened ws fr st \<Longrightarrow> unopened ws fr (ws_onmessage j p st)"
  by (auto simp: ws_onmessage_def Let_def unopened_ws_close split: payload.splits)

lemma unopened_open_other:
  assumes "unopened ws fr st" "j \<noteq> ws"
  shows "unopened ws fr (ws_onopen j (upd_socket j (\<lambda>k. k\<lparr>readyState := OPEN\<rparr>) st))"
proof -
  from assms have "unopened ws fr (upd_socket j (\<lambda>k. k\<lparr>readyState := OPEN\<rparr>) st)"
    by (auto simp: unopened_def upd_socket_def nth_upd)
  then show ?thesis
    by (auto simp: ws_onopen_def unopened_ws_send split: onopen_handler.splits)
qed

lemma unopened_closed:
  assumes "unopened ws fr st"
  shows "unopened ws fr (upd_socket j (\<lambda>k. k\<lparr>readyState := CLOSED\<rparr>) st)"
  using assms by (auto simp: unopened_def upd_socket_def nth_upd)

lemma unopened_step:
  assumes "unopened ws fr st" "e \<noteq> SocketOpen ws"
  shows "unopened ws fr (step e st)"
  using assms
  by (cases e)
     (simp_all add: step_def unopened_connect unopened_disconnect unopened_sendMessage
        unopened_handleSubmit unopened_ws_onmessage unopened_open_other unopened_closed)

lemma unopened_run:
  assumes "unopened ws fr st" "SocketOpen ws \<notin> set es"
  shows "unopened ws fr (run es st)"
  using assms unfolding run_def
proof (induction es arbitrary: st)
  case Nil
  then show ?case by simp
next
  case (Cons e es)
  from Cons.prems have "unopened ws fr (step e st)"
    by (intro unopened_step) auto
  with Cons show ?case by simp
qed

lemma sendMessage_connecting:
  assumes "wsRef st = Some ws" "ws < length (sockets st)"
    "readyState (sockets st ! ws) = CONNECTING"
  shows "sendMessage message ts st
           = (True, upd_socket ws (\<lambda>k. k\<lparr>onopen := OnOpenSend message ts\<rparr>) st)"
  using assms by (simp add: sendMessage_def connect_def)

lemma sendMessage_no_socket:
  assumes "wsRef st = None"
  shows "sendMessage message ts st
           = (True, upd_socket (length (sockets st)) (\<lambda>k. k\<lparr>onopen := OnOpenSend message ts\<rparr>)
                      (connect st))"
  using assms by (simp add: sendMessage_def connect_def)

lemma deferred_open:
  assumes "ws < length (sockets st)" "readyState (sockets st ! ws) = CONNECTING"
    "onopen (sockets st ! ws) = OnOpenSend message ts"
  shows "sent (sockets (step (SocketOpen ws) st) ! ws) = sent (sockets st ! ws) @ [(message, ts)]"
    and "isStreaming (step (SocketOpen ws) st)"
    and "isConnected (step (SocketOpen ws) st) = isConnected st"
    and "readyState (sockets (step (SocketOpen ws) st) ! ws) = OPEN"
  using assms by (simp_all add: step_def ws_onopen_def ws_send_def upd_socket_def)

lemma close_silent:
  "ui_error (step (SocketClose ws) st) = ui_error st"
  "messages (step (SocketClose ws) st) = messages st"
  by (simp_all add: step_def ws_onclose_def upd_socket_def)

lemma handleSubmit_connecting:
  assumes "wsRef st = Some ws" "ws < length (sockets st)"
    "readyState (sockets st ! ws) = CONNECTING" "trim (input st) \<noteq> []" "\<not> isStreaming st"
  shows "input (handleSubmit st) = []"
    and "map sent (sockets (handleSubmit st)) = map sent (sockets st)"
  using assms
  by (simp_all add: handleSubmit_def Let_def sendMessage_def connect_def upd_socket_def
        map_update list_update_same_conv)

text \<open>
  As long as the hook is neither unmounted nor given another document, every socket but
  the one in \<^verbatim>\<open>wsRef\<close> is closed, so at most one socket is live.
\<close>

lemma single_ref_fields [simp]:
  "single_ref (st\<lparr>isStreaming := b\<rparr>) = single_ref st"
  "single_ref (st\<lparr>isConnected := b\<rparr>) = single_ref st"
  "single_ref (st\<lparr>input := i\<rparr>) = single_ref st"
  "single_ref (st\<lparr>messages := ms\<rparr>) = single_ref st"
  "single_ref (st\<lparr>ui_error := ue\<rparr>) = single_ref st"
  "single_ref (st\<lparr>streamingContent := sc\<rparr>) = single_ref st"
  "single_ref (st\<lparr>streamingRef := sr\<rparr>) = single_ref st"
  by (simp_all add: single_ref_def split: option.splits)

lemma single_ref_handlers [simp]:
  "single_ref (handleError e st) = single_ref st"
  "single_ref (handleMessage d st) = single_ref st"
  "single_ref (handleComplete srcs st) = single_ref st"
  "single_ref (ws_onerror j st) = single_ref st"
  by (simp_all add: handleError_def handleMessage_def handleComplete_def Let_def
        ws_onerror_def)

lemma single_ref_upd:
  assumes "single_ref st"
    "readyState (sockets st ! j) = CLOSED \<Longrightarrow> readyState (f (sockets st ! j)) = CLOSED"
  shows "single_ref (upd_socket j f st)"
  using assms by (auto simp: single_ref_def upd_socket_def nth_upd split: option.splits)

lemma single_ref_ws_close: "single_ref st \<Longrightarrow> single_ref (ws_close j st)"
  unfolding ws_close_def by (auto intro!: single_ref_upd)

lemma single_ref_ws_send: "single_ref st \<Longrightarrow> single_ref (ws_send j f st)"
  unfolding ws_send_def by (auto intro!: single_ref_upd)

lemma single_ref_connect: "single_ref st \<Longrightarrow> single_ref (connect st)"
  by (auto simp: single_ref_def connect_def nth_append less_Suc_eq split: option.splits)

lemma single_ref_sendMessage: "single_ref st \<Longrightarrow> single_ref (snd (sendMessage message ts st))"
  by (auto simp: sendMessage_def Let_def single_ref_connect single_ref_ws_send
           intro!: single_ref_upd split: option.splits)

lemma single_ref_handleSubmit: "single_ref st \<Longrightarrow> single_ref (handleSubmit st)"
proof -
  assume a: "single_ref st"
  define st1 where "st1 = st\<lparr>messages := messages st @
      [\<lparr>role = User, content = trim (input st), message_sources = None\<rparr>],
      ui_error := None, streamingContent := []\<rparr>"
  from a have "single_ref st1" by (simp add: st1_def)
  from single_ref_sendMessage [OF this, of "trim (input st)" True] a show ?thesis
    by (simp add: handleSubmit_def Let_def st1_def split_def)
qed

lemma single_ref_onmessage: "single_ref st \<Longrightarrow> single_ref (ws_onmessage j p st)"
  by (auto simp: ws_onmessage_def Let_def single_ref_ws_close split: payload.splits)

lemma single_ref_open:
  assumes "single_ref st" "j < length (sockets st)" "readyState (sockets st ! j) = CONNECTING"
  shows "single_ref (ws_onopen j (upd_socket j (\<lambda>k. k\<lparr>readyState := OPEN\<rparr>) st))"
proof -
  from assms have "wsRef st = Some j"
    by (auto simp: single_ref_def)
  with assms have "single_ref (upd_socket j (\<lambda>k. k\<lparr>readyState := OPEN\<rparr>) st)"
    by (auto simp: single_ref_def upd_socket_def nth_upd)
  then show ?thesis
    by (auto simp: ws_onopen_def single_ref_ws_send split: onopen_handler.splits)
qed

lemma single_ref_closed:
  assumes "single_ref st" "j < length (sockets st)" "readyState (sockets st ! j) \<noteq> CLOSED"
  shows "single_ref (ws_onclose j (upd_socket j (\<lambda>k. k\<lparr>readyState := CLOSED\<rparr>) st))"
  using assms
  by (auto simp: single_ref_def ws_onclose_def upd_socket_def nth_upd split: option.splits)

lemma single_ref_step:
  assumes "single_ref st" "keeps_socket e"
  shows "single_ref (step e st)"
  using assms
  by (cases e)
     (simp_all add: step_def keeps_socket_def single_ref_connect single_ref_sendMessage
        single_ref_handleSubmit single_ref_onmessage single_ref_open single_ref_closed)

lemma single_ref_run:
  assumes "single_ref st" "list_all keeps_socket es"
  shows "single_ref (run es st)"
  using assms unfolding run_def
  by (induction es arbitrary: st) (simp_all add: single_ref_step)

lemma filter_at_most_one:
  assumes "\<And>i. i \<in> set xs \<Longrightarrow> P i \<Longrightarrow> i = a" "distinct xs"
  shows "length (filter P xs) \<le> 1"
proof -
  define ys where "ys = filter P xs"
  have sub: "set ys \<subseteq> {a}"
    using assms(1) by (auto simp: ys_def)
  have d: "distinct ys"
    using assms(2) by (simp add: ys_def)
  have "card (set ys) \<le> card {a}"
    using sub by (intro card_mono) simp_all
  moreover have "card (set ys) = length ys"
    using d by (rule distinct_card)
  ultimately show ?thesis
    by (simp add: ys_def)
qed

lemma single_ref_live: "single_ref st \<Longrightarrow> length (live st) \<le> 1"
proof -
  assume a: "single_ref st"
  show ?thesis
    unfolding live_def
  proof (rule filter_at_most_one [where a = "case wsRef st of Some ws \<Rightarrow> ws | None \<Rightarrow> 0"])
    fix i
    assume "i \<in> set [0..<length (sockets st)]"
      and "readyState (sockets st ! i) \<in> {CONNECTING, OPEN}"
    with a show "i = (case wsRef st of Some ws \<Rightarrow> ws | None \<Rightarrow> 0)"
      by (cases "wsRef st") (auto simp: single_ref_def)
  qed simp
qed

lemma single_live_while_mounted:
  "list_all keeps_socket es \<Longrightarrow> length (live (run es (chat_init d))) \<le> 1"
  by (rule single_ref_live [OF single_ref_run]) (simp_all add: single_ref_def chat_init_def)

lemma connect_noop: "wsRef st \<noteq> None \<Longrightarrow> connect st = st"
  by (simp add: connect_def)

text \<open>
  Claim C3. After \<^verbatim>\<open>Summarize\<close> is sent, the frames with the tokens \<^verbatim>\<open>Hel\<close> and \<^verbatim>\<open>lo\<close> and
  then the terminal frame yield the assistant message \<^verbatim>\<open>Hello\<close>; the accumulator is empty
  afterwards and the client has closed the connection (the socket is closing, and closed
  with the reference cleared once the browser's close event has arrived). In general a
  frame is appended to the accumulator exactly when it is no error frame, is not terminal
  and carries a non-empty token.
\<close>

theorem end_to_end_streaming_scenario:
  "(let st = run [Mount, SocketOpen 0, Type ''Summarize'', Submit,
                  SocketMessage 0 (token_frame ''Hel''), SocketMessage 0 (token_frame ''lo''),
                  SocketMessage 0 terminal_frame] (chat_init d)
    in messages st =
         [\<lparr>role = User, content = ''Summarize'', message_sources = None\<rparr>,
          \<lparr>role = Assistant, content = ''Hello'', message_sources = Some []\<rparr>]
       \<and> streamingRef st = [] \<and> streamingContent st = [] \<and> \<not> isStreaming st
       \<and> map sent (sockets st) = [ [(''Summarize'', True)] ]
       \<and> map readyState (sockets st) = [CLOSING] \<and> live st = []
       \<and> map readyState (sockets (step (SocketClose 0) st)) = [CLOSED]
       \<and> wsRef (step (SocketClose 0) st) = None)
   \<and> streamingRef (ws_onmessage ws (Data f) st0) =
        (if truthy (error f) then streamingRef st0
         else if done_flag f then (if trim (streamingRef st0) = [] then streamingRef st0 else [])
         else if truthy (token f) then streamingRef st0 @ the (token f)
         else streamingRef st0)"
proof (intro conjI)
  show "streamingRef (ws_onmessage ws (Data f) st0) =
        (if truthy (error f) then streamingRef st0
         else if done_flag f then (if trim (streamingRef st0) = [] then streamingRef st0 else [])
         else if truthy (token f) then streamingRef st0 @ the (token f)
         else streamingRef st0)"
    by (auto simp: ws_onmessage_def ws_close_def upd_socket_def handleError_def
          handleComplete_def handleMessage_def truthy_def Let_def split: option.splits)
qed (simp add: run_def step_def chat_init_def connect_def upd_socket_def ws_onopen_def
       handleSubmit_def sendMessage_def ws_send_def ws_onmessage_def token_frame_def
       terminal_frame_def truthy_def handleMessage_def handleComplete_def ws_close_def
       ws_onclose_def live_def trim_def is_whitespace_def Let_def)

text \<open>
  Claim C5. A terminal frame that arrives while the accumulated text is empty or consists
  of white space only appends no message and raises no error: \<^verbatim>\<open>handleComplete\<close> leaves the
  state as it is, and the message log, the error and the accumulator are the same after
  the frame as before.
\<close>

theorem empty_completion_is_noop:
  assumes "list_all is_whitespace (streamingRef st)" and "done_flag f"
    and "\<not> truthy (error f)"
  shows "handleComplete response_sources st = st
    \<and> messages (step (SocketMessage ws (Data f)) st) = messages st
    \<and> ui_error (step (SocketMessage ws (Data f)) st) = ui_error st
    \<and> streamingRef (step (SocketMessage ws (Data f)) st) = streamingRef st"
proof -
  from assms(1) have t: "trim (streamingRef st) = []"
    by (simp add: trim_empty_iff)
  then show ?thesis
    using assms(2,3)
    by (simp add: handleComplete_def step_def ws_onmessage_def ws_close_def upd_socket_def
          Let_def)
qed

theorem empty_completion_is_noop_witness:
  "(let st = run [Mount, SocketOpen 0, Type ''q'', Submit, SocketMessage 0 (token_frame ''  '')]
               (chat_init ''doc'');
        f = \<lparr>token = None, done_flag = True, sources = Some [], timestamps = Some [],
             error = None\<rparr>
    in list_all is_whitespace (streamingRef st) \<and> streamingRef st = ''  ''
       \<and> done_flag f \<and> \<not> truthy (error f)
       \<and> readyState (sockets st ! 0) = OPEN
       \<and> handleComplete [] st = st
       \<and> messages (step (SocketMessage 0 (Data f)) st) = messages st
       \<and> ui_error (step (SocketMessage 0 (Data f)) st) = ui_error st
       \<and> streamingRef (step (SocketMessage 0 (Data f)) st) = streamingRef st)"
proof -
  define st where "st = run [Mount, SocketOpen 0, Type ''q'', Submit,
    SocketMessage 0 (token_frame ''  '')] (chat_init ''doc'')"
  define f where "f = \<lparr>token = None, done_flag = True, sources = Some ([] :: Source list),
    timestamps = Some ([] :: TimestampSegment list), error = None\<rparr>"
  have s: "streamingRef st = ''  ''" and o: "readyState (sockets st ! 0) = OPEN"
    unfolding st_def by code_simp+
  have h1: "list_all is_whitespace (streamingRef st)"
    unfolding s by code_simp
  have h2: "done_flag f" and h3: "\<not> truthy (error f)"
    by (simp_all add: f_def truthy_def)
  from empty_completion_is_noop [OF h1 h2 h3, of "[]" 0] h1 h2 h3 s o
  show ?thesis
    unfolding Let_def st_def [symmetric] f_def [symmetric] by blast
qed

text \<open>
  Claim C2. A close of the connection between two turns must keep the text of the first
  turn out of the message of the second. The code keeps the accumulator across the close:
  the first turn receives \<^verbatim>\<open>Hel\<close>, the connection drops, the second turn receives \<^verbatim>\<open>lo\<close> and
  its terminal frame, and the message committed for the second turn is \<^verbatim>\<open>Hello\<close>. In every
  state the accumulator is the same after a close event, an error event, the cleanup or
  the start of the effect, and the next submit.
\<close>

theorem accumulator_survives_close:
  "(let st = run [Mount, SocketOpen 0, Type ''q1'', Submit,
                  SocketMessage 0 (token_frame ''Hel''), SocketClose 0,
                  Type ''q2'', Submit, SocketOpen 1,
                  SocketMessage 1 (token_frame ''lo''), SocketMessage 1 terminal_frame]
               (chat_init ''doc'')
    in messages st =
         [\<lparr>role = User, content = ''q1'', message_sources = None\<rparr>,
          \<lparr>role = User, content = ''q2'', message_sources = None\<rparr>,
          \<lparr>role = Assistant, content = ''Hello'', message_sources = Some []\<rparr>])
   \<and> streamingRef (run [Mount, SocketOpen 0, Type ''q1'', Submit,
                        SocketMessage 0 (token_frame ''Hel''), SocketClose 0]
                     (chat_init ''doc'')) = ''Hel''
   \<and> streamingRef (step (SocketClose ws) st0) = streamingRef st0
   \<and> streamingRef (step (SocketError ws) st0) = streamingRef st0
   \<and> streamingRef (step Unmount st0) = streamingRef st0
   \<and> streamingRef (step Mount st0) = streamingRef st0
   \<and> streamingRef (step Submit st0) = streamingRef st0"
proof (intro conjI)
  show "streamingRef (step Submit st0) = streamingRef st0"
    by (simp add: step_def handleSubmit_def sendMessage_def connect_def handleError_def
          ws_send_def upd_socket_def Let_def split: option.splits)
  show "streamingRef (step Unmount st0) = streamingRef st0"
    by (simp add: step_def disconnect_def ws_close_def upd_socket_def Let_def
          split: option.splits)
qed (code_simp | simp add: step_def ws_onclose_def ws_onerror_def handleError_def
       upd_socket_def connect_def)+

text \<open>
  Claim C8. An error frame must surface the error, end streaming, discard the current
  accumulation and close the connection, and no later token frame of the exchange may be
  taken as content. The code does all of it but the discarding: after the token \<^verbatim>\<open>Hel\<close> and
  an error frame the display copy is empty while the accumulator still holds \<^verbatim>\<open>Hel\<close>. In
  every state an error frame leaves the accumulator as it is.
\<close>

theorem error_frame_keeps_accumulator:
  "(let st = run [Mount, SocketOpen 0, Type ''q'', Submit,
                  SocketMessage 0 (token_frame ''Hel''), SocketMessage 0 (error_frame ''boom'')]
               (chat_init ''doc'')
    in ui_error st = Some ''boom'' \<and> \<not> isStreaming st
       \<and> map readyState (sockets st) = [CLOSING]
       \<and> run [SocketMessage 0 (token_frame ''lo'')] st = st
       \<and> streamingContent st = [] \<and> streamingRef st = ''Hel'')
   \<and> streamingRef (step (SocketMessage ws (error_frame e)) st0) = streamingRef st0"
proof (intro conjI)
  show "streamingRef (step (SocketMessage ws (error_frame e)) st0) = streamingRef st0"
    by (simp add: step_def ws_onmessage_def error_frame_def truthy_def handleError_def
          handleMessage_def ws_close_def upd_socket_def Let_def)
qed code_simp

text \<open>
  Claim C6. At most one live connection may exist at any time. \<^verbatim>\<open>connect\<close> does nothing
  while \<^verbatim>\<open>wsRef\<close> holds a socket, but the close handler of every socket clears \<^verbatim>\<open>wsRef\<close>,
  also when \<^verbatim>\<open>wsRef\<close> holds a newer socket by then. After a change of document the close
  event of the old socket clears the reference to the new one, and the next send opens a
  second socket for the same document while the first is still open; the same happens
  to a send made while streaming.
\<close>

theorem stale_close_allows_two_live_sockets:
  "(let st = run [Mount, ChangeDocument ''B'', SocketClose 0, SocketOpen 1, Type ''hi'', Submit]
               (chat_init ''A'')
    in live st = [1, 2] \<and> map target (sockets st) = [''A'', ''B'', ''B'']
       \<and> map readyState (sockets st) = [CLOSED, OPEN, CONNECTING])
   \<and> (let st = run [Mount, ChangeDocument ''B'', Send ''x'' True, SocketClose 0, SocketOpen 1]
                  (chat_init ''A'')
       in isStreaming st \<and> live st = [1]
          \<and> live (run [Send ''y'' True, Send ''z'' True] st) = [1, 2])"
  by code_simp

text \<open>
  Claim C7. Every open event must mark the client connected, also when a send was queued
  while the socket was connecting. The queued send replaces the open handler that sets the
  flag: when the socket opens, the request is sent and streaming is marked, but the client
  stays marked as not connected.
\<close>

theorem queued_send_leaves_disconnected:
  "(let st = run [Mount, Send ''hi'' True, SocketOpen 0] (chat_init ''doc'')
    in map readyState (sockets st) = [OPEN] \<and> map sent (sockets st) = [ [(''hi'', True)] ]
       \<and> isStreaming st \<and> \<not> isConnected st)
   \<and> isConnected (run [Mount, SocketOpen 0] (chat_init ''doc''))"
  by code_simp

text \<open>
  Claim C10, as stated: after a send made while the socket is connecting, no failure is
  ever reported if the socket never opens. It fails: the error event of the socket
  reports \<^verbatim>\<open>WebSocket connection error\<close> although the socket never opened and nothing was
  sent.
\<close>

theorem queued_send_error_is_reported:
  "(let st0 = run [Mount] (chat_init ''doc'');
        st = run [Send ''hi'' True, SocketError 0, SocketClose 0] st0
    in map readyState (sockets st0) = [CONNECTING] \<and> fst (sendMessage ''hi'' True st0)
       \<and> map sent (sockets st) = [ [] ]
       \<and> ui_error st = Some ''WebSocket connection error'')"
  by code_simp

text \<open>
  Claim C10, amended. A call of \<^verbatim>\<open>sendMessage\<close> made while the socket is connecting returns
  true at once, sends nothing and reports nothing. The frame is sent when the open event
  arrives, and in no run without that event. A close event before the open event reports
  nothing; only an error event of the socket reports the general
  \<^verbatim>\<open>WebSocket connection error\<close>. \<^verbatim>\<open>handleSubmit\<close> takes the true result as success and
  clears the input.
\<close>

theorem sendMessage_while_connecting:
  fixes st :: chat and message :: string and includeTimestamps :: bool
  assumes "wsRef st = Some ws" and "ws < length (sockets st)"
    and "readyState (sockets st ! ws) = CONNECTING"
  defines "st' \<equiv> snd (sendMessage message includeTimestamps st)"
  shows "fst (sendMessage message includeTimestamps st)
    \<and> map sent (sockets st') = map sent (sockets st)
    \<and> ui_error st' = ui_error st
    \<and> (SocketOpen ws \<notin> set es \<longrightarrow> sent (sockets (run es st') ! ws) = sent (sockets st ! ws))
    \<and> sent (sockets (step (SocketOpen ws) st') ! ws)
        = sent (sockets st ! ws) @ [(message, includeTimestamps)]
    \<and> isStreaming (step (SocketOpen ws) st')
    \<and> ui_error (step (SocketClose ws) st') = ui_error st
    \<and> ui_error (step (SocketError ws) st') = Some ''WebSocket connection error''
    \<and> (trim (input st) \<noteq> [] \<and> \<not> isStreaming st \<longrightarrow> input (handleSubmit st) = [])"
proof -
  have e: "sendMessage message includeTimestamps st
      = (True, upd_socket ws (\<lambda>k. k\<lparr>onopen := OnOpenSend message includeTimestamps\<rparr>) st)"
    using assms(1-3) by (rule sendMessage_connecting)
  then have st': "st' = upd_socket ws (\<lambda>k. k\<lparr>onopen := OnOpenSend message includeTimestamps\<rparr>) st"
    by (simp add: st'_def)
  have fields: "ws < length (sockets st')" "readyState (sockets st' ! ws) = CONNECTING"
    "onopen (sockets st' ! ws) = OnOpenSend message includeTimestamps"
    "sent (sockets st' ! ws) = sent (sockets st ! ws)" "ui_error st' = ui_error st"
    using assms(2,3) by (simp_all add: st' upd_socket_def)
  have u: "unopened ws (sent (sockets st ! ws)) st'"
    using fields by (simp add: unopened_def)
  have "map sent (sockets st') = map sent (sockets st)"
    using assms(2) by (simp add: st' upd_socket_def map_update list_update_same_conv)
  moreover have "SocketOpen ws \<notin> set es \<longrightarrow>
      sent (sockets (run es st') ! ws) = sent (sockets st ! ws)"
    using unopened_run [OF u, of es] by (simp add: unopened_def)
  moreover have "ui_error (step (SocketError ws) st') = Some ''WebSocket connection error''"
    using fields by (simp add: step_def ws_onerror_def handleError_def)
  moreover have "trim (input st) \<noteq> [] \<and> \<not> isStreaming st \<longrightarrow> input (handleSubmit st) = []"
    using handleSubmit_connecting(1) [OF assms(1-3)] by blast
  ultimately show ?thesis
    using e fields deferred_open [OF fields(1-3)] close_silent(1) [of ws st']
    by simp
qed

theorem sendMessage_while_connecting_witness:
  "(let st = run [Mount, Type ''hi''] (chat_init ''doc'');
        st' = snd (sendMessage ''hi'' True st)
    in wsRef st = Some 0 \<and> 0 < length (sockets st)
       \<and> readyState (sockets st ! 0) = CONNECTING
       \<and> SocketOpen 0 \<notin> set [SocketClose 0, Submit]
       \<and> trim (input st) \<noteq> [] \<and> \<not> isStreaming st
       \<and> fst (sendMessage ''hi'' True st)
       \<and> sent (sockets (run [SocketClose 0, Submit] st') ! 0) = sent (sockets st ! 0)
       \<and> sent (sockets (step (SocketOpen 0) st') ! 0) = sent (sockets st ! 0) @ [(''hi'', True)]
       \<and> input (handleSubmit st) = [])"
proof -
  define st where "st = run [Mount, Type ''hi''] (chat_init ''doc'')"
  have h: "wsRef st = Some 0" "0 < length (sockets st)"
    "readyState (sockets st ! 0) = CONNECTING"
    unfolding st_def by code_simp+
  have g: "SocketOpen 0 \<notin> set [SocketClose 0, Submit]"
    "trim (input st) \<noteq> [] \<and> \<not> isStreaming st"
    unfolding st_def by code_simp+
  from sendMessage_while_connecting
         [OF h, where message = "''hi''" and includeTimestamps = True
            and es = "[SocketClose 0, Submit]"] h g
  show ?thesis
    unfolding Let_def st_def [symmetric] by blast
qed

section \<open>Properties of the seek coordination\<close>

text \<open>
  Claim C1. Setting the requested position to the same value twice in succession must make
  the player seek twice. In the code the second request changes neither dependency of the
  player's effect, so the effect does not run and the player seeks once, for every value and
  from every state. A second seek happens only when the position was reset to
  \<^verbatim>\<open>null\<close> in between, which the handler's comment describes and its disabled line
  would have done.
\<close>

theorem repeated_seek_is_suppressed:
  "seekTo_calls (handleSeekToTimestamp n (handleSeekToTimestamp n st))
     = seekTo_calls (handleSeekToTimestamp n st)
   \<and> seekTo_calls (handleSeekToTimestamp 83 (handleSeekToTimestamp 83 (onReady player_init)))
       = [83]
   \<and> seekTo_calls (handleSeekToTimestamp 83 (setSeekTimestamp None
        (handleSeekToTimestamp 83 (onReady player_init)))) = [83, 83]"
proof (intro conjI)
  show "seekTo_calls (handleSeekToTimestamp n (handleSeekToTimestamp n st))
     = seekTo_calls (handleSeekToTimestamp n st)"
    by (simp add: handleSeekToTimestamp_def setSeekTimestamp_def render_def seek_effect_def
          Let_def)
qed code_simp+

section \<open>Properties of the status poller\<close>

lemma poll_closure_cong [simp]:
  "poll_closure (st\<lparr>cycles := cs\<rparr>) = poll_closure st"
  "poll_closure (st\<lparr>status_queries := qs\<rparr>) = poll_closure st"
  "poll_closure (st\<lparr>interval := iv\<rparr>) = poll_closure st"
  by (simp_all add: poll_closure_def Let_def)

lemma issue_query_fields [simp]:
  "documents (issue_query k st) = documents st"
  "selectedDocument (issue_query k st) = selectedDocument st"
  "interval (issue_query k st) = interval st"
  "cycles (issue_query k st) = cycles st"
  "poll_closure (issue_query k st) = poll_closure st"
  by (simp_all add: issue_query_def split: list.splits)

lemma settled_poll_effect [simp]: "settled (poll_effect st)"
  by (simp add: settled_def poll_effect_def)

lemma apply_status_settled: "settled st \<Longrightarrow> settled (apply_status c updated st)"
  by (simp add: apply_status_def Let_def)

lemma apply_status_cycles [simp]:
  "cycles (apply_status c updated st) = cycles st"
  "status_queries (apply_status c updated st) = status_queries st"
  by (simp_all add: apply_status_def poll_effect_def Let_def)

lemma settled_step: "settled st \<Longrightarrow> settled (app_step e st)"
proof (cases e)
  case IntervalTick
  assume "settled st"
  then show ?thesis
    by (simp add: IntervalTick app_step_def interval_tick_def settled_def split: option.splits)
next
  case (StatusReply k result)
  assume s: "settled st"
  show ?thesis
  proof (cases result)
    case None
    with s show ?thesis
      by (simp add: StatusReply app_step_def status_reply_def settled_def Let_def)
  next
    case (Some updated)
    from apply_status_settled [OF s, of "cycles st ! k" updated] s show ?thesis
      by (simp add: StatusReply Some app_step_def status_reply_def settled_def Let_def)
  qed
qed (simp_all add: app_step_def handleUploadComplete_def handleSelectDocument_def
       clickDocument_def loadDocuments_def)

lemma settled_run: "settled st \<Longrightarrow> settled (app_run es st)"
  unfolding app_run_def by (induction es arbitrary: st) (simp_all add: settled_step)

lemma settled_init: "settled app_init"
  by (simp add: settled_def app_init_def poll_closure_def)

text \<open>What one answer does.\<close>

lemma status_reply_processed:
  assumes "k < length (cycles st)" "pending (cycles st ! k) \<noteq> []" "processed updated"
  shows "documents (status_reply k (Some updated) st)
           = map (\<lambda>d. if doc_id d = doc_id updated then updated else d) (documents st)"
    and "(case cycle_selected (cycles st ! k) of None \<Rightarrow> False
          | Some s \<Rightarrow> doc_id s = doc_id updated)
         \<Longrightarrow> selectedDocument (status_reply k (Some updated) st) = Some updated"
    and "settled (status_reply k (Some updated) st)"
  using assms
  by (simp_all add: status_reply_def apply_status_def Let_def poll_effect_def settled_def)

lemma status_reply_failed:
  "documents (status_reply k None st) = documents st"
  "selectedDocument (status_reply k None st) = selectedDocument st"
  "interval (status_reply k None st) = interval st"
  by (simp_all add: status_reply_def Let_def)

lemma tick_queries:
  assumes "interval st = Some (us, sel)" "us \<noteq> []"
  shows "status_queries (interval_tick st) = status_queries st @ [(length (cycles st), doc_id (hd us))]"
    and "cycles (interval_tick st) = cycles st @ [\<lparr>pending = us, cycle_selected = sel\<rparr>]"
  using assms by (cases us; simp add: interval_tick_def issue_query_def)+

lemma settled_interval:
  assumes "settled st" "interval st = Some (us, sel)"
  shows "us = filter (\<lambda>d. \<not> processed d) (documents st)" "us \<noteq> []" "sel = selectedDocument st"
  using assms by (auto simp: settled_def poll_closure_def Let_def split: if_splits)

lemma settled_no_unprocessed:
  assumes "settled st" "filter (\<lambda>d. \<not> processed d) (documents st) = []"
  shows "interval st = None" "interval_tick st = st"
  using assms by (simp_all add: settled_def poll_closure_def interval_tick_def)

text \<open>
  Once every record with the identifier \<open>x\<close> is processed, the cycles that begin later
  never hold a document with that identifier, so they never query it.
\<close>

lemma list_all_drop_iff:
  "list_all P (drop n xs) \<longleftrightarrow> (\<forall>i. n \<le> i \<and> i < length xs \<longrightarrow> P (xs ! i))"
proof
  assume a: "list_all P (drop n xs)"
  show "\<forall>i. n \<le> i \<and> i < length xs \<longrightarrow> P (xs ! i)"
  proof (intro allI impI)
    fix i
    assume i: "n \<le> i \<and> i < length xs"
    then have "i - n < length (drop n xs)" by auto
    with a have "P (drop n xs ! (i - n))"
      by (simp only: list_all_length)
    with i show "P (xs ! i)" by simp
  qed
next
  assume a: "\<forall>i. n \<le> i \<and> i < length xs \<longrightarrow> P (xs ! i)"
  have "P (drop n xs ! j)" if "j < length (drop n xs)" for j
  proof -
    from that have "n \<le> n + j \<and> n + j < length xs" by simp
    with a have "P (xs ! (n + j))" by blast
    with that show ?thesis by simp
  qed
  then show "list_all P (drop n xs)"
    by (simp only: list_all_length) blast
qed

lemma later_invI:
  assumes "settled st" "doc_settled x st" "n \<le> length (cycles st)"
    "\<And>i. n \<le> i \<Longrightarrow> i < length (cycles st) \<Longrightarrow> x \<notin> doc_id ` set (pending (cycles st ! i))"
    "m \<le> length (status_queries st)"
    "list_all (\<lambda>(c, y). n \<le> c \<longrightarrow> y \<noteq> x) (drop m (status_queries st))"
  shows "later_inv x n m st"
  using assms unfolding later_inv_def list_all_drop_iff [of _ n] by blast

lemma later_invD:
  assumes "later_inv x n m st"
  shows "settled st" "doc_settled x st" "n \<le> length (cycles st)"
    "\<And>i. n \<le> i \<Longrightarrow> i < length (cycles st) \<Longrightarrow> x \<notin> doc_id ` set (pending (cycles st ! i))"
    "m \<le> length (status_queries st)"
    "list_all (\<lambda>(c, y). n \<le> c \<longrightarrow> y \<noteq> x) (drop m (status_queries st))"
  using assms unfolding later_inv_def list_all_drop_iff [of _ n] by blast+

lemma later_inv_tick:
  assumes "later_inv x n m st"
  shows "later_inv x n m (interval_tick st)"
proof (cases "interval st")
  case None
  with assms show ?thesis by (simp add: interval_tick_def)
next
  case (Some cl)
  obtain us sel where cl: "cl = (us, sel)" by (cases cl)
  note inv = later_invD [OF assms]
  from Some cl have iv: "interval st = Some (us, sel)"
    by simp
  from settled_interval [OF inv(1) iv]
  have us: "us = filter (\<lambda>d. \<not> processed d) (documents st)" "us \<noteq> []"
    by simp_all
  from inv(2) us(1) have nx: "x \<notin> doc_id ` set us"
    by (auto simp: doc_settled_def list_all_iff)
  with us(2) have hx: "doc_id (hd us) \<noteq> x"
    by (cases us) auto
  note t = tick_queries [OF iv us(2)]
  show ?thesis
  proof (rule later_invI)
    show "settled (interval_tick st)"
      using settled_step [OF inv(1), of IntervalTick] by (simp add: app_step_def)
    show "doc_settled x (interval_tick st)"
      using inv(2) by (simp add: doc_settled_def interval_tick_def Some cl)
    show "n \<le> length (cycles (interval_tick st))"
      using inv(3) by (simp add: t)
    show "m \<le> length (status_queries (interval_tick st))"
      using inv(5) by (simp add: t)
    show "list_all (\<lambda>(c, y). n \<le> c \<longrightarrow> y \<noteq> x) (drop m (status_queries (interval_tick st)))"
      using inv(5,6) hx by (simp add: t)
  next
    fix i
    assume i: "n \<le> i" "i < length (cycles (interval_tick st))"
    show "x \<notin> doc_id ` set (pending (cycles (interval_tick st) ! i))"
    proof (cases "i < length (cycles st)")
      case True
      with inv(4) [OF i(1)] show ?thesis by (simp add: t nth_append)
    next
      case False
      with i(2) have "i = length (cycles st)" by (simp add: t)
      with nx show ?thesis by (simp add: t)
    qed
  qed
qed

lemma doc_settled_apply_status:
  assumes "doc_settled x st"
  shows "doc_settled x (apply_status c updated st)"
  using assms
  by (auto simp: doc_settled_def apply_status_def Let_def poll_effect_def list_all_iff)

lemma later_inv_reply:
  assumes "later_inv x n m st"
  shows "later_inv x n m (status_reply k result st)"
proof (cases "k < length (cycles st) \<and> pending (cycles st ! k) \<noteq> []")
  case False
  then have "status_reply k result st = st"
    by (auto simp: status_reply_def)
  with assms show ?thesis by simp
next
  case True
  define st1 where
    "st1 = (case result of None \<Rightarrow> st | Some updated \<Rightarrow> apply_status (cycles st ! k) updated st)"
  define c' where "c' = (cycles st ! k)\<lparr>pending := tl (pending (cycles st ! k))\<rparr>"
  define st2 where "st2 = st1\<lparr>cycles := (cycles st1)[k := c']\<rparr>"
  have r: "status_reply k result st = issue_query k st2"
    using True by (simp add: status_reply_def Let_def st1_def st2_def c'_def)
  note inv = later_invD [OF assms]
  have c1: "cycles st1 = cycles st" and q1: "status_queries st1 = status_queries st"
    by (simp_all add: st1_def split: option.splits)
  have s1: "settled st1" and d1: "doc_settled x st1"
    using inv(1,2) by (simp_all add: st1_def apply_status_settled doc_settled_apply_status
        split: option.splits)
  have s2: "settled st2" and d2: "doc_settled x st2"
    using s1 d1 by (simp_all add: st2_def settled_def doc_settled_def)
  have c2: "cycles st2 = (cycles st)[k := c']" and q2: "status_queries st2 = status_queries st"
    by (simp_all add: st2_def c1 q1)
  have sub: "set (pending c') \<subseteq> set (pending (cycles st ! k))"
    using True by (cases "pending (cycles st ! k)") (auto simp: c'_def)
  have p2: "x \<notin> doc_id ` set (pending (cycles st2 ! i))"
    if "n \<le> i" "i < length (cycles st)" for i
  proof (cases "i = k")
    case True
    with that have "cycles st2 ! i = c'" by (simp add: c2)
    moreover from inv(4) [OF that] True have "x \<notin> doc_id ` set (pending (cycles st ! k))"
      by simp
    ultimately show ?thesis using sub by auto
  next
    case False
    with inv(4) [OF that] show ?thesis by (simp add: c2)
  qed
  show ?thesis
    unfolding r
  proof (rule later_invI)
    show "settled (issue_query k st2)"
      using s2 by (simp add: settled_def)
    show "doc_settled x (issue_query k st2)"
      using d2 by (simp add: doc_settled_def)
    show "n \<le> length (cycles (issue_query k st2))"
      using inv(3) by (simp add: c2)
    show "m \<le> length (status_queries (issue_query k st2))"
      using inv(5) by (simp add: issue_query_def q2 split: list.splits)
    show "list_all (\<lambda>(c, y). n \<le> c \<longrightarrow> y \<noteq> x) (drop m (status_queries (issue_query k st2)))"
    proof (cases "pending (cycles st2 ! k)")
      case Nil
      with inv(6) show ?thesis by (simp add: issue_query_def q2)
    next
      case (Cons d ds)
      have "n \<le> k \<longrightarrow> doc_id d \<noteq> x"
      proof
        assume "n \<le> k"
        from p2 [OF this] True Cons show "doc_id d \<noteq> x" by auto
      qed
      with inv(5,6) Cons show ?thesis by (simp add: issue_query_def q2)
    qed
  next
    fix i
    assume "n \<le> i" "i < length (cycles (issue_query k st2))"
    with p2 [of i] show "x \<notin> doc_id ` set (pending (cycles (issue_query k st2) ! i))"
      by (simp add: c2)
  qed
qed

lemma later_inv_click:
  assumes "later_inv x n m st"
  shows "later_inv x n m (clickDocument i st)"
  using assms
  by (simp add: clickDocument_def handleSelectDocument_def later_inv_def poll_effect_def
        settled_def doc_settled_def)

lemma later_inv_run:
  assumes "later_inv x n m st" "list_all keeps_documents es"
  shows "later_inv x n m (app_run es st)"
  using assms unfolding app_run_def
proof (induction es arbitrary: st)
  case Nil
  then show ?case by simp
next
  case (Cons e es)
  from Cons.prems(2) have "keeps_documents e" by simp
  with Cons.prems(1) have "later_inv x n m (app_step e st)"
    by (cases e)
       (simp_all add: keeps_documents_def app_step_def later_inv_tick later_inv_reply
          later_inv_click)
  with Cons show ?case by simp
qed

lemma later_inv_after_reply:
  assumes "k < length (cycles st)" "pending (cycles st ! k) \<noteq> []" "processed updated"
  defines "st' \<equiv> status_reply k (Some updated) st"
  shows "later_inv (doc_id updated) (length (cycles st')) (length (status_queries st')) st'"
proof -
  have "doc_settled (doc_id updated) st'"
    using assms(3) status_reply_processed(1) [OF assms(1-3)]
    by (auto simp: doc_settled_def st'_def list_all_iff)
  moreover have "settled st'"
    using status_reply_processed(3) [OF assms(1-3)] by (simp add: st'_def)
  ultimately show ?thesis
    by (intro later_invI) simp_all
qed

text \<open>
  In an admissible run the selection, while it is an unprocessed object, is the one held
  by every cycle that may still learn about that document.
\<close>

lemma selection_heldI:
  assumes "\<And>s c. selectedDocument st = Some s \<Longrightarrow> \<not> processed s \<Longrightarrow> c \<in> set (cycles st)
    \<Longrightarrow> doc_id s \<in> doc_id ` set (pending c)
    \<Longrightarrow> \<exists>s'. cycle_selected c = Some s' \<and> doc_id s' = doc_id s"
  shows "selection_held st"
proof (cases "selectedDocument st")
  case None
  then show ?thesis by (simp add: selection_held_def)
next
  case (Some s)
  show ?thesis
  proof (cases "processed s")
    case True
    with Some show ?thesis by (simp add: selection_held_def)
  next
    case False
    have "case cycle_selected c of None \<Rightarrow> False | Some s' \<Rightarrow> doc_id s' = doc_id s"
      if "c \<in> set (cycles st)" "doc_id s \<in> doc_id ` set (pending c)" for c
      using assms [OF Some False that] by auto
    with Some False show ?thesis
      by (simp add: selection_held_def list_all_iff)
  qed
qed

lemma selection_heldD:
  assumes "selection_held st" "selectedDocument st = Some s" "\<not> processed s"
    "c \<in> set (cycles st)" "doc_id s \<in> doc_id ` set (pending c)"
  shows "\<exists>s'. cycle_selected c = Some s' \<and> doc_id s' = doc_id s"
proof -
  from assms(1-3) have "list_all (\<lambda>c. doc_id s \<in> doc_id ` set (pending c)
      \<longrightarrow> (case cycle_selected c of None \<Rightarrow> False | Some s' \<Rightarrow> doc_id s' = doc_id s))
      (cycles st)"
    by (simp add: selection_held_def)
  with assms(4,5) have "case cycle_selected c of None \<Rightarrow> False
      | Some s' \<Rightarrow> doc_id s' = doc_id s"
    by (simp add: list_all_iff)
  then show ?thesis by (cases "cycle_selected c") simp_all
qed

lemma selection_held_tick:
  assumes "selection_held st" "settled st"
  shows "selection_held (interval_tick st)"
proof (cases "interval st")
  case None
  with assms show ?thesis by (simp add: interval_tick_def)
next
  case (Some cl)
  obtain us sel where cl: "cl = (us, sel)" by (cases cl)
  from Some cl have iv: "interval st = Some (us, sel)" by simp
  note si = settled_interval [OF assms(2) iv]
  note t = tick_queries(2) [OF iv si(2)]
  have sd: "selectedDocument (interval_tick st) = selectedDocument st"
    by (simp add: interval_tick_def iv)
  show ?thesis
  proof (rule selection_heldI)
    fix s c
    assume a: "selectedDocument (interval_tick st) = Some s" "\<not> processed s"
      "c \<in> set (cycles (interval_tick st))" "doc_id s \<in> doc_id ` set (pending c)"
    from a(3) consider "c \<in> set (cycles st)" | "c = \<lparr>pending = us, cycle_selected = sel\<rparr>"
      by (auto simp: t)
    then show "\<exists>s'. cycle_selected c = Some s' \<and> doc_id s' = doc_id s"
    proof cases
      case 1
      with assms(1) a sd show ?thesis
        by (intro selection_heldD [of st]) simp_all
    next
      case 2
      with a(1) sd si(3) show ?thesis by simp
    qed
  qed
qed

lemma selection_held_reply:
  assumes "selection_held st"
  shows "selection_held (status_reply k result st)"
proof (cases "k < length (cycles st) \<and> pending (cycles st ! k) \<noteq> []")
  case False
  then have "status_reply k result st = st"
    by (auto simp: status_reply_def)
  with assms show ?thesis by simp
next
  case True
  define st1 where
    "st1 = (case result of None \<Rightarrow> st | Some updated \<Rightarrow> apply_status (cycles st ! k) updated st)"
  define c' where "c' = (cycles st ! k)\<lparr>pending := tl (pending (cycles st ! k))\<rparr>"
  define st2 where "st2 = st1\<lparr>cycles := (cycles st1)[k := c']\<rparr>"
  have r: "status_reply k result st = issue_query k st2"
    using True by (simp add: status_reply_def Let_def st1_def st2_def c'_def)
  have c1: "cycles st1 = cycles st"
    by (simp add: st1_def split: option.splits)
  have sel1: "selectedDocument st1 = selectedDocument st
      \<or> (\<exists>u. selectedDocument st1 = Some u \<and> processed u)"
    by (auto simp: st1_def apply_status_def Let_def poll_effect_def split: option.splits)
  have sub: "set (pending c') \<subseteq> set (pending (cycles st ! k))"
    using True by (cases "pending (cycles st ! k)") (auto simp: c'_def)
  have cs: "cycle_selected c' = cycle_selected (cycles st ! k)"
    by (simp add: c'_def)
  have f: "selectedDocument st2 = selectedDocument st1"
    "cycles (issue_query k st2) = (cycles st)[k := c']"
    by (simp_all add: st2_def c1)
  show ?thesis
    unfolding r
  proof (rule selection_heldI)
    fix s c
    assume a: "selectedDocument (issue_query k st2) = Some s" "\<not> processed s"
      "c \<in> set (cycles (issue_query k st2))" "doc_id s \<in> doc_id ` set (pending c)"
    from a(1,2) sel1 have s: "selectedDocument st = Some s"
      by (auto simp: f)
    from a(3) have "c \<in> insert c' (set (cycles st))"
      using set_update_subset_insert [of "cycles st" k c'] by (auto simp only: f)
    then have "c \<in> set (cycles st) \<or> c = c'"
      by blast
    then show "\<exists>s'. cycle_selected c = Some s' \<and> doc_id s' = doc_id s"
    proof
      assume "c \<in> set (cycles st)"
      with assms s a(2,4) show ?thesis
        by (intro selection_heldD [of st]) simp_all
    next
      assume c: "c = c'"
      from True have "cycles st ! k \<in> set (cycles st)" by simp
      moreover from a(4) c sub have "doc_id s \<in> doc_id ` set (pending (cycles st ! k))"
        by auto
      ultimately have "\<exists>s'. cycle_selected (cycles st ! k) = Some s' \<and> doc_id s' = doc_id s"
        using assms s a(2) by (intro selection_heldD [of st]) simp_all
      with c cs show ?thesis by simp
    qed
  qed
qed

lemma selection_held_cong:
  "selectedDocument st' = selectedDocument st \<Longrightarrow> cycles st' = cycles st
   \<Longrightarrow> selection_held st' = selection_held st"
  by (cases "selectedDocument st") (simp_all add: selection_held_def)

lemma selection_held_processed:
  "selectedDocument st = Some s \<Longrightarrow> processed s \<Longrightarrow> selection_held st"
  by (simp add: selection_held_def)

lemma selection_held_step:
  assumes "selection_held st" "settled st" "fresh_upload e st"
  shows "selection_held (app_step e st)"
proof (cases e)
  case IntervalTick
  with assms show ?thesis by (simp add: app_step_def selection_held_tick)
next
  case (StatusReply k result)
  with assms show ?thesis by (simp add: app_step_def selection_held_reply)
next
  case (UploadComplete document)
  with assms(3) have "list_all (\<lambda>c. doc_id document \<notin> doc_id ` set (pending c)) (cycles st)"
    by (simp add: fresh_upload_def)
  then show ?thesis
    by (auto simp: UploadComplete app_step_def handleUploadComplete_def poll_effect_def
          selection_held_def list_all_iff)
next
  case (ClickDocument i)
  show ?thesis
  proof (cases "i < length (documents st) \<and> processed (documents st ! i)")
    case True
    then have "selection_held (clickDocument i st)"
      by (intro selection_held_processed [of _ "documents st ! i"])
         (simp_all add: clickDocument_def handleSelectDocument_def poll_effect_def)
    then show ?thesis by (simp add: ClickDocument app_step_def)
  next
    case False
    then have "clickDocument i st = st"
      by (auto simp: clickDocument_def)
    with assms(1) show ?thesis by (simp add: ClickDocument app_step_def)
  qed
next
  case (DocumentsLoaded response)
  have "selection_held (loadDocuments response st) = selection_held st"
    by (rule selection_held_cong) (simp_all add: loadDocuments_def poll_effect_def)
  with assms(1) show ?thesis by (simp add: DocumentsLoaded app_step_def)
qed

lemma selection_held_run:
  assumes "selection_held st" "settled st" "admissible es st"
  shows "selection_held (app_run es st)"
  using assms unfolding app_run_def
proof (induction es arbitrary: st)
  case Nil
  then show ?case by simp
next
  case (Cons e es)
  from Cons.prems have "selection_held (app_step e st)" "settled (app_step e st)"
    "admissible es (app_step e st)"
    by (simp_all add: selection_held_step settled_step)
  with Cons.IH show ?case by simp
qed

lemma selection_held_init: "selection_held app_init"
  by (simp add: selection_held_def app_init_def)

text \<open>
  What the poller does in every admissible run. When a cycle receives the processed record
  of the document it asked for, every record of the collection with that identifier is
  replaced by the new object, and so is a selection that is the unprocessed record of that
  document. The timer installed afterwards does not hold the document, and the cycles
  begun afterwards do not query it as long as no upload or reload brings a document in.
  When no known document is unprocessed no timer runs and a tick does nothing. A failed
  status query leaves the timer as it is, and the next tick begins a new cycle that queries
  the first unprocessed document.
\<close>

lemma poller_guarantees:
  fixes es0 es es1 :: "app_event list" and updated :: Document
  defines "st \<equiv> app_run es0 app_init"
  assumes "admissible es0 app_init"
    and "k < length (cycles st)" and "pending (cycles st ! k) \<noteq> []"
    and "doc_id updated = doc_id (hd (pending (cycles st ! k)))" and "processed updated"
    and "list_all keeps_documents es"
  defines "st' \<equiv> app_step (StatusReply k (Some updated)) st"
    and "st1 \<equiv> app_run es1 app_init"
  shows "documents st'
        = map (\<lambda>d. if doc_id d = doc_id updated then updated else d) (documents st)
    \<and> (\<forall>s. selectedDocument st = Some s \<and> doc_id s = doc_id updated \<and> \<not> processed s
          \<longrightarrow> selectedDocument st' = Some updated)
    \<and> (\<forall>us sel. interval st' = Some (us, sel) \<longrightarrow> doc_id updated \<notin> doc_id ` set us)
    \<and> list_all (\<lambda>(c, q). length (cycles st') \<le> c \<longrightarrow> q \<noteq> doc_id updated)
         (drop (length (status_queries st')) (status_queries (app_run es st')))
    \<and> (filter (\<lambda>d. \<not> processed d) (documents st1) = []
        \<longrightarrow> interval st1 = None \<and> app_step IntervalTick st1 = st1)
    \<and> interval (app_step (StatusReply j None) st1) = interval st1
    \<and> (\<forall>us sel. interval st1 = Some (us, sel) \<longrightarrow>
          status_queries (app_step IntervalTick (app_step (StatusReply j None) st1))
            = status_queries (app_step (StatusReply j None) st1)
              @ [(length (cycles st1), doc_id (hd us))])"
proof -
  have r: "st' = status_reply k (Some updated) st"
    by (simp add: st'_def app_step_def)
  note p = status_reply_processed [OF assms(3,4,6)]
  have s1: "settled st1"
    unfolding st1_def by (rule settled_run [OF settled_init])
  have held: "selection_held st"
    unfolding st_def
    by (rule selection_held_run [OF selection_held_init settled_init assms(2)])
  have a: "documents st'
        = map (\<lambda>d. if doc_id d = doc_id updated then updated else d) (documents st)"
    using p(1) by (simp add: r)
  have b: "\<forall>s. selectedDocument st = Some s \<and> doc_id s = doc_id updated \<and> \<not> processed s
          \<longrightarrow> selectedDocument st' = Some updated"
  proof (intro allI impI)
    fix s
    assume s: "selectedDocument st = Some s \<and> doc_id s = doc_id updated \<and> \<not> processed s"
    from assms(3) have m: "cycles st ! k \<in> set (cycles st)"
      by simp
    from assms(4) have "hd (pending (cycles st ! k)) \<in> set (pending (cycles st ! k))"
      by simp
    with s assms(5) have i: "doc_id s \<in> doc_id ` set (pending (cycles st ! k))"
      by (metis imageI)
    from selection_heldD [OF held _ _ m i] s
    obtain s' where "cycle_selected (cycles st ! k) = Some s'" "doc_id s' = doc_id s"
      by blast
    with s have "case cycle_selected (cycles st ! k) of None \<Rightarrow> False
      | Some s \<Rightarrow> doc_id s = doc_id updated"
      by simp
    then show "selectedDocument st' = Some updated"
      unfolding r by (rule p(2))
  qed
  have inv: "later_inv (doc_id updated) (length (cycles st')) (length (status_queries st')) st'"
    unfolding r by (rule later_inv_after_reply [OF assms(3,4,6)])
  have c: "\<forall>us sel. interval st' = Some (us, sel) \<longrightarrow> doc_id updated \<notin> doc_id ` set us"
  proof (intro allI impI)
    fix us sel
    assume i: "interval st' = Some (us, sel)"
    from settled_interval(1) [OF later_invD(1) [OF inv] i] later_invD(2) [OF inv]
    show "doc_id updated \<notin> doc_id ` set us"
      by (auto simp: doc_settled_def list_all_iff)
  qed
  have "later_inv (doc_id updated) (length (cycles st')) (length (status_queries st'))
          (app_run es st')"
    using inv assms(7) by (rule later_inv_run)
  then have d: "list_all (\<lambda>(c, q). length (cycles st') \<le> c \<longrightarrow> q \<noteq> doc_id updated)
         (drop (length (status_queries st')) (status_queries (app_run es st')))"
    by (rule later_invD(6))
  have e: "filter (\<lambda>d. \<not> processed d) (documents st1) = []
        \<longrightarrow> interval st1 = None \<and> app_step IntervalTick st1 = st1"
    using settled_no_unprocessed [OF s1] by (simp add: app_step_def)
  have f: "interval (app_step (StatusReply j None) st1) = interval st1"
    by (simp add: app_step_def status_reply_failed)
  have g: "\<forall>us sel. interval st1 = Some (us, sel) \<longrightarrow>
          status_queries (app_step IntervalTick (app_step (StatusReply j None) st1))
            = status_queries (app_step (StatusReply j None) st1)
              @ [(length (cycles st1), doc_id (hd us))]"
  proof (intro allI impI)
    fix us sel
    assume i: "interval st1 = Some (us, sel)"
    define st2 where "st2 = app_step (StatusReply j None) st1"
    have i2: "interval st2 = Some (us, sel)"
      using f i by (simp add: st2_def)
    have l: "length (cycles st2) = length (cycles st1)"
      by (simp add: st2_def app_step_def status_reply_def Let_def)
    from settled_interval(2) [OF s1 i] tick_queries(1) [OF i2] l
    show "status_queries (app_step IntervalTick (app_step (StatusReply j None) st1))
            = status_queries (app_step (StatusReply j None) st1)
              @ [(length (cycles st1), doc_id (hd us))]"
      by (simp add: app_step_def st2_def)
  qed
  from a b c d e f g show ?thesis by blast
qed

text \<open>
  Claim C9. Once the poller has seen a document become processed, no further status query
  may be issued for that document. The effect computes its list with
  \<^verbatim>\<open>documents.filter((d) => !d.processed)\<close> and its cleanup clears the timer, so the cycles of
  the new timer leave the document out; but a cycle that is already under way is not
  stopped and goes on through the list it began with. The documents \<^verbatim>\<open>a\<close> and \<^verbatim>\<open>b\<close> are
  unprocessed, and two timer ticks begin two cycles before the first answer arrives (a
  status query that takes longer than the interval). The first cycle goes on to \<^verbatim>\<open>b\<close> and
  learns that it is processed; the record is replaced and the new timer holds \<^verbatim>\<open>a\<close> only.
  When the query of the second cycle for \<^verbatim>\<open>a\<close> is answered, that cycle asks for \<^verbatim>\<open>b\<close> once
  more.
\<close>

theorem overlapping_cycle_queries_again:
  "(let st = app_step (StatusReply 0 (Some (mk_doc ''b'' True))) two_cycles
    in status_queries two_cycles = [(0, ''a''), (1, ''a''), (0, ''b'')]
       \<and> documents st = [mk_doc ''a'' False, mk_doc ''b'' True]
       \<and> interval st = Some ([mk_doc ''a'' False], Some (mk_doc ''a'' False))
       \<and> status_queries st = [(0, ''a''), (1, ''a''), (0, ''b'')]
       \<and> status_queries (app_step (StatusReply 1 (Some (mk_doc ''a'' False))) st)
           = [(0, ''a''), (1, ''a''), (0, ''b''), (1, ''b'')])"
  by code_simp

end
